theory Spec2Isabelle
  imports Main "HOL-Library.Word" "HOL-Library.Multiset"
begin

unbundle bit_operations_syntax

section \<open>Data model of ckb\_smt.h\<close>

text \<open>
  Bytes are \<open>uint8_t\<close>, counters are \<open>uint32_t\<close>. A key, a value and a digest are arrays
  of 32 bytes, modelled as byte lists; \<open>memcpy (dst, src, 32)\<close> into a 32-byte array
  leaves \<open>take 32 src\<close> there and \<open>memcmp (a, b, 32) == 0\<close> compares the first 32 bytes.
  The field \<open>value\<close> of \<open>smt_pair_t\<close> is \<open>val\<close> here, and the helpers \<open>_smt_get_bit\<close>,
  \<open>_smt_merge\<close>, \<dots> drop their leading underscore.
\<close>

type_synonym u8 = "8 word"
type_synonym u32 = "32 word"

abbreviation (input) SMT_STACK_SIZE :: nat where "SMT_STACK_SIZE \<equiv> 32"
abbreviation (input) SMT_KEY_BYTES :: nat where "SMT_KEY_BYTES \<equiv> 32"
abbreviation (input) SMT_VALUE_BYTES :: nat where "SMT_VALUE_BYTES \<equiv> 32"

datatype SMTErrorCode =
    ERROR_INSUFFICIENT_CAPACITY
  | ERROR_NOT_FOUND
  | ERROR_INVALID_STACK
  | ERROR_INVALID_SIBLING
  | ERROR_INVALID_PROOF

fun error_code :: "SMTErrorCode \<Rightarrow> int" where
  "error_code ERROR_INSUFFICIENT_CAPACITY = 80"
| "error_code ERROR_NOT_FOUND = 81"
| "error_code ERROR_INVALID_STACK = 82"
| "error_code ERROR_INVALID_SIBLING = 83"
| "error_code ERROR_INVALID_PROOF = 84"

record smt_pair_t =
  key :: "u8 list"
  val :: "u8 list"
  order :: u32

record smt_state_t =
  pairs :: "smt_pair_t list"
  len :: u32
  capacity :: u32

definition memcmp_eq :: "u8 list \<Rightarrow> u8 list \<Rightarrow> nat \<Rightarrow> bool" where
  "memcmp_eq a b n = (take n a = take n b)"

section \<open>Bit helpers\<close>

definition smt_get_bit :: "u8 list \<Rightarrow> nat \<Rightarrow> bool" where
  "smt_get_bit data offset =
     (let byte_pos = offset div 8; bit_pos = offset mod 8
      in (drop_bit bit_pos (data ! byte_pos)) AND 1 \<noteq> 0)"

definition smt_set_bit :: "u8 list \<Rightarrow> nat \<Rightarrow> u8 list" where
  "smt_set_bit data offset =
     (let byte_pos = offset div 8; bit_pos = offset mod 8
      in data[byte_pos := (data ! byte_pos) OR push_bit bit_pos 1])"

definition smt_clear_bit :: "u8 list \<Rightarrow> nat \<Rightarrow> u8 list" where
  "smt_clear_bit data offset =
     (let byte_pos = offset div 8; bit_pos = offset mod 8
      in data[byte_pos := (data ! byte_pos) AND NOT (push_bit bit_pos 1)])"

text \<open>The two \<open>for\<close> loops of \<open>_smt_copy_bits\<close>, each a fold over its index range.\<close>

definition smt_copy_bits :: "u8 list \<Rightarrow> nat \<Rightarrow> u8 list" where
  "smt_copy_bits source first_kept_bit =
     (let first_byte = first_kept_bit div 8;
          zeroed = fold (\<lambda>i s. s[i := 0]) [0..<first_byte] source
      in fold (\<lambda>i s. smt_clear_bit s i) [first_byte * 8..<first_kept_bit] zeroed)"

definition smt_parent_path :: "u8 list \<Rightarrow> u8 \<Rightarrow> u8 list" where
  "smt_parent_path k height =
     (if height = 255 then replicate 32 0 @ drop 32 k
      else smt_copy_bits k (unat height + 1))"

definition smt_zero_value :: "u8 list \<Rightarrow> bool" where
  "smt_zero_value v = list_all (\<lambda>i. v ! i = 0) [0..<32]"

section \<open>Merging two digests\<close>

text \<open>
  BLAKE2b is not part of this repository (\<open>blake2b.h\<close>). The sequence
  \<open>blake2b_init (ctx, 32); blake2b_update (ctx, a, 32); blake2b_update (ctx, b, 32);
  blake2b_final (ctx, out, 32)\<close> is the 32-byte BLAKE2b digest of the 64 bytes
  \<open>a \<parallel> b\<close>; the digest function is a parameter \<open>H\<close> of the model.
\<close>

type_synonym hash_fn = "u8 list \<Rightarrow> u8 list"

definition smt_merge :: "hash_fn \<Rightarrow> u8 list \<Rightarrow> u8 list \<Rightarrow> u8 list" where
  "smt_merge H lhs rhs =
     (if smt_zero_value lhs then take 32 rhs
      else if smt_zero_value rhs then take 32 lhs
      else H (take 32 lhs @ take 32 rhs))"

section \<open>The leaf staging buffer\<close>

text \<open>
  \<open>pairs\<close> is the caller's buffer of \<open>capacity\<close> entries; only the entries below \<open>len\<close>
  have been written, and the C functions stay inside the buffer as long as it has
  \<open>capacity\<close> entries and \<open>len \<le> capacity\<close>. The functions return \<open>Inr\<close> of the
  updated state (or of the value written to the caller) where the C function returns 0, and
  \<open>Inl\<close> of the error code otherwise. The loop indices are \<open>int32_t\<close>: a \<open>uint32_t\<close> is
  converted to them by \<open>sint\<close>, and they never leave the range of \<open>int32_t\<close> afterwards, so
  they are integers here.
\<close>

definition smt_state_init :: "smt_pair_t list \<Rightarrow> u32 \<Rightarrow> smt_state_t" where
  "smt_state_init buffer cap = \<lparr>pairs = buffer, len = 0, capacity = cap\<rparr>"

text \<open>
  The search loop of \<open>smt_state_insert\<close>: \<open>for (; i >= 0; i--)\<close> with a \<open>break\<close> on the
  first entry whose key matches; the result is the value of the \<open>int32_t i\<close> after the loop.
\<close>

function insert_loop :: "smt_pair_t list \<Rightarrow> u8 list \<Rightarrow> int \<Rightarrow> int" where
  "insert_loop ps k i =
     (if 0 \<le> i then
        (if memcmp_eq k (key (ps ! nat i)) SMT_KEY_BYTES then i
         else insert_loop ps k (i - 1))
      else i)"
  by pat_completeness auto
termination
  by (relation "measure (\<lambda>(ps, k, i). nat (i + 1))") auto

definition smt_state_insert ::
  "smt_state_t \<Rightarrow> u8 list \<Rightarrow> u8 list \<Rightarrow> SMTErrorCode + smt_state_t" where
  "smt_state_insert st k v =
     (if len st < capacity st then
        Inr (st\<lparr>pairs := (pairs st)[unat (len st) :=
                    (pairs st ! unat (len st))\<lparr>key := take SMT_KEY_BYTES k,
                                               val := take SMT_KEY_BYTES v\<rparr>],
                len := len st + 1\<rparr>)
      else
        (let i = insert_loop (pairs st) k (sint (len st - 1))
         in if i < 0 then Inl ERROR_INSUFFICIENT_CAPACITY
            else Inr (st\<lparr>pairs := (pairs st)[nat i :=
                        (pairs st ! nat i)\<lparr>val := take SMT_VALUE_BYTES v\<rparr>]\<rparr>)))"

function fetch_loop :: "smt_pair_t list \<Rightarrow> u8 list \<Rightarrow> int \<Rightarrow> SMTErrorCode + u8 list" where
  "fetch_loop ps k i =
     (if 0 \<le> i then
        (if memcmp_eq k (key (ps ! nat i)) SMT_KEY_BYTES
         then Inr (take SMT_VALUE_BYTES (val (ps ! nat i)))
         else fetch_loop ps k (i - 1))
      else Inl ERROR_NOT_FOUND)"
  by pat_completeness auto
termination
  by (relation "measure (\<lambda>(ps, k, i). nat (i + 1))") auto

definition smt_state_fetch :: "smt_state_t \<Rightarrow> u8 list \<Rightarrow> SMTErrorCode + u8 list" where
  "smt_state_fetch st k = fetch_loop (pairs st) k (sint (len st - 1))"

text \<open>
  \<open>_smt_pair_cmp\<close>: the keys are compared from byte 31 down to byte 0 (the bytes are
  promoted to \<open>int\<close> before the subtraction); on equal keys the result is the \<open>uint32_t\<close>
  difference of the two \<open>order\<close> fields, converted to \<open>int\<close>.
\<close>

fun key_cmp :: "nat \<Rightarrow> u8 list \<Rightarrow> u8 list \<Rightarrow> int" where
  "key_cmp 0 a b = 0"
| "key_cmp (Suc i) a b =
     (let cmp_result = uint (a ! i) - uint (b ! i)
      in if cmp_result \<noteq> 0 then cmp_result else key_cmp i a b)"

definition smt_pair_cmp :: "smt_pair_t \<Rightarrow> smt_pair_t \<Rightarrow> int" where
  "smt_pair_cmp pa pb =
     (let cmp_result = key_cmp SMT_KEY_BYTES (key pa) (key pb)
      in if cmp_result \<noteq> 0 then cmp_result else sint (order pa - order pb))"

text \<open>The first loop of \<open>smt_state_normalize\<close>: \<open>pairs[i].order = len - i\<close> for \<open>i < len\<close>.\<close>

definition assign_order :: "smt_pair_t list \<Rightarrow> u32 \<Rightarrow> smt_pair_t list" where
  "assign_order ps n =
     fold (\<lambda>i ps. ps[i := (ps ! i)\<lparr>order := n - of_nat i\<rparr>]) [0..<unat n] ps"

text \<open>
  The inner \<open>while\<close> of the duplicate removal advances \<open>next\<close> over the entries whose key
  equals that of \<open>item_index\<close>; \<open>n\<close> is \<open>(int32_t) state->len\<close>.
\<close>

function skip_equal :: "smt_pair_t list \<Rightarrow> int \<Rightarrow> int \<Rightarrow> int \<Rightarrow> int" where
  "skip_equal ps n item_index next =
     (if next < n \<and> memcmp_eq (key (ps ! nat item_index)) (key (ps ! nat next)) SMT_KEY_BYTES
      then skip_equal ps n item_index (next + 1)
      else next)"
  by pat_completeness auto
termination
  by (relation "measure (\<lambda>(ps, n, item_index, next). nat (n - next))") auto

function dedup_loop :: "smt_pair_t list \<Rightarrow> int \<Rightarrow> int \<Rightarrow> int \<Rightarrow> smt_pair_t list \<times> int" where
  "dedup_loop ps n sorted_n next =
     (if next < n then
        (let item_index = next;
             next' = skip_equal ps n item_index (next + 1);
             ps' = (if item_index \<noteq> sorted_n
                    then ps[nat sorted_n := (ps ! nat sorted_n)
                           \<lparr>key := take SMT_KEY_BYTES (key (ps ! nat item_index)),
                            val := take SMT_VALUE_BYTES (val (ps ! nat item_index))\<rparr>]
                    else ps)
         in dedup_loop ps' n (sorted_n + 1) next')
      else (ps, sorted_n))"
  by pat_completeness auto
termination
proof (relation "measure (\<lambda>(ps, n, sorted_n, nxt). nat (n - nxt))", goal_cases)
  case 1
  show ?case by simp
next
  case (2 ps n sorted_n nxt item_index nxt' ps')
  have "j \<le> skip_equal qs n i j" for qs i j
    by (induction qs n i j rule: skip_equal.induct)
       (subst skip_equal.simps, auto simp del: skip_equal.simps)
  then have "nxt + 1 \<le> skip_equal ps n nxt (nxt + 1)"
    by blast
  then show ?case
    using 2 by (simp del: skip_equal.simps)
qed

text \<open>
  \<open>qsort\<close> is the C library's; it is the parameter \<open>qs\<close>, applied to the first \<open>len\<close>
  entries of the buffer. The last assignment converts the \<open>int32_t sorted\<close> (here \<open>sorted_n\<close>) to \<open>uint32_t\<close>.
\<close>

type_synonym qsort_fn = "(smt_pair_t \<Rightarrow> smt_pair_t \<Rightarrow> int) \<Rightarrow> smt_pair_t list \<Rightarrow> smt_pair_t list"

definition smt_state_normalize :: "qsort_fn \<Rightarrow> smt_state_t \<Rightarrow> smt_state_t" where
  "smt_state_normalize qs st =
     (let ps1 = assign_order (pairs st) (len st);
          ps2 = qs smt_pair_cmp (take (unat (len st)) ps1) @ drop (unat (len st)) ps1;
          (ps3, sorted_n) = dedup_loop ps2 (sint (len st)) 0 0
      in st\<lparr>pairs := ps3, len := word_of_int sorted_n\<rparr>)"

text \<open>An insertion sort driven by the comparator, as one possible \<open>qsort\<close>.\<close>

fun insert_by :: "('a \<Rightarrow> 'a \<Rightarrow> int) \<Rightarrow> 'a \<Rightarrow> 'a list \<Rightarrow> 'a list" where
  "insert_by cmp x [] = [x]"
| "insert_by cmp x (y # ys) =
     (if cmp x y \<le> 0 then x # y # ys else y # insert_by cmp x ys)"

definition insertion_qsort :: "('a \<Rightarrow> 'a \<Rightarrow> int) \<Rightarrow> 'a list \<Rightarrow> 'a list" where
  "insertion_qsort cmp xs = foldr (insert_by cmp) xs []"

section \<open>The proof interpreter\<close>

text \<open>
  The local variables of \<open>smt_calculate_root\<close>. The frames \<open>stack_keys[j]\<close>,
  \<open>stack_values[j]\<close> for \<open>j < stack_top\<close> are the list \<open>stack\<close>, the top frame first, so
  \<open>stack_top\<close> is its length; the slots at and above \<open>stack_top\<close> are written by the next
  \<open>0x4C\<close> before they are read.
\<close>

record interp =
  proof_index :: u32
  leave_index :: u32
  stack :: "(u8 list \<times> u8 list) list"

abbreviation (input) stack_top :: "interp \<Rightarrow> nat" where
  "stack_top m \<equiv> length (stack m)"

text \<open>
  One pass through the \<open>switch\<close>. The result is \<open>Some (Inl e)\<close> where the C code returns
  the error \<open>e\<close>, \<open>Some (Inr m)\<close> where it reaches \<open>break\<close> with the variables \<open>m\<close>, and
  \<open>None\<close> where it reads past the end of \<open>proof\<close> or of the pair buffer. The caller
  passes the length of \<open>proof\<close> as the \<open>uint32_t proof_length\<close>. In \<open>case 0x50\<close> the sum
  \<open>proof_index + 33\<close> is a \<open>uint32_t\<close> and wraps; where it wraps past the check, the 33
  operand bytes lie beyond \<open>proof_length\<close>.
\<close>

definition case_0x4C :: "hash_fn \<Rightarrow> smt_state_t \<Rightarrow> interp \<Rightarrow> (SMTErrorCode + interp) option" where
  "case_0x4C H st m =
     (if stack_top m \<ge> SMT_STACK_SIZE then Some (Inl ERROR_INVALID_STACK)
      else if leave_index m \<ge> len st then Some (Inl ERROR_INVALID_PROOF)
      else if unat (leave_index m) \<ge> length (pairs st) then None
      else
        (let p = pairs st ! unat (leave_index m);
             k = take SMT_KEY_BYTES (key p);
             v = (if smt_zero_value (val p) then replicate 32 0
                  else H (take SMT_KEY_BYTES (key p) @ take SMT_KEY_BYTES (val p)))
         in Some (Inr (m\<lparr>leave_index := leave_index m + 1, stack := (k, v) # stack m\<rparr>))))"

definition case_0x50 :: "hash_fn \<Rightarrow> u8 list \<Rightarrow> interp \<Rightarrow> (SMTErrorCode + interp) option" where
  "case_0x50 H proof m =
     (let proof_length = (of_nat (length proof) :: u32) in
      if stack_top m = 0 then Some (Inl ERROR_INVALID_STACK)
      else if proof_index m + 33 > proof_length then Some (Inl ERROR_INVALID_PROOF)
      else if unat (proof_index m) + 33 > unat proof_length then None
      else
        (let height = proof ! unat (proof_index m);
             current_proof = take 32 (drop (unat (proof_index m) + 1) proof);
             (k, v) = hd (stack m);
             v' = (if smt_get_bit k (unat height) then smt_merge H current_proof v
                   else smt_merge H v current_proof);
             k' = smt_parent_path k height
         in Some (Inr (m\<lparr>proof_index := proof_index m + 33,
                          stack := (k', v') # tl (stack m)\<rparr>))))"

definition case_0x48 :: "hash_fn \<Rightarrow> u8 list \<Rightarrow> interp \<Rightarrow> (SMTErrorCode + interp) option" where
  "case_0x48 H proof m =
     (let proof_length = (of_nat (length proof) :: u32) in
      if stack_top m < 2 then Some (Inl ERROR_INVALID_STACK)
      else if proof_index m \<ge> proof_length then Some (Inl ERROR_INVALID_PROOF)
      else
        (let height = proof ! unat (proof_index m);
             (key_a, value_a) = stack m ! 1;
             (key_b, value_b) = stack m ! 0;
             a_set = smt_get_bit key_a (unat height);
             b_set = smt_get_bit key_b (unat height);
             key_a' = smt_copy_bits key_a (unat height);
             key_b' = smt_copy_bits key_b (unat height);
             sibling_key_a = (if \<not> a_set then smt_set_bit (take 32 key_a') (unat height)
                              else take 32 key_a')
         in if \<not> memcmp_eq sibling_key_a key_b' 32 \<or> a_set = b_set
            then Some (Inl ERROR_INVALID_SIBLING)
            else
              (let value_a' = (if a_set then smt_merge H value_b value_a
                               else smt_merge H value_a value_b)
               in Some (Inr (m\<lparr>proof_index := proof_index m + 1,
                                stack := (key_a', value_a') # drop 2 (stack m)\<rparr>)))))"

text \<open>\<open>switch (proof[proof_index++])\<close>: the opcode is read, the index advanced, the case run.\<close>

definition smt_step :: "hash_fn \<Rightarrow> smt_state_t \<Rightarrow> u8 list \<Rightarrow> interp \<Rightarrow> (SMTErrorCode + interp) option" where
  "smt_step H st proof m =
     (let opcode = proof ! unat (proof_index m);
          m1 = m\<lparr>proof_index := proof_index m + 1\<rparr>
      in if opcode = 0x4C then case_0x4C H st m1
         else if opcode = 0x50 then case_0x50 H proof m1
         else if opcode = 0x48 then case_0x48 H proof m1
         else Some (Inl ERROR_INVALID_PROOF))"

text \<open>The \<open>while\<close> loop; \<open>Some (Inr m)\<close> are the variables when the loop is left.\<close>

function smt_loop :: "hash_fn \<Rightarrow> smt_state_t \<Rightarrow> u8 list \<Rightarrow> interp \<Rightarrow> (SMTErrorCode + interp) option" where
  "smt_loop H st proof m =
     (if proof_index m < of_nat (length proof) then
        (case smt_step H st proof m of
           None \<Rightarrow> None
         | Some (Inl e) \<Rightarrow> Some (Inl e)
         | Some (Inr m') \<Rightarrow> smt_loop H st proof m')
      else Some (Inr m))"
  by pat_completeness auto
termination
proof (relation "measure (\<lambda>(H, st, proof, m).
         unat (of_nat (length proof) :: u32) - unat (proof_index m))", goal_cases)
  case 1
  show ?case by simp
next
  case (2 H st "proof" m r m')
  define n :: u32 where "n = of_nat (length proof)"
  have lt: "proof_index m < n"
    using 2 by (simp add: n_def)
  then have one: "unat (proof_index m + 1) = unat (proof_index m) + 1"
    by unat_arith
  have step: "smt_step H st proof m = Some (Inr m')"
    using 2 by simp
  have "unat (proof_index m) < unat (proof_index m')"
  proof -
    have "unat (proof_index m + 1 + 33) = unat (proof_index m + 1) + 33"
      if "unat (proof_index m + 1) + 33 \<le> unat n"
      using that by unat_arith
    moreover have "unat (proof_index m + 1 + 1) = unat (proof_index m + 1) + 1"
      if "proof_index m + 1 < n"
      using that by unat_arith
    ultimately show ?thesis
      using step one
      by (auto simp: smt_step_def case_0x4C_def case_0x50_def case_0x48_def Let_def
            n_def [symmetric] not_less not_le split: if_splits prod.splits)
  qed
  then show ?case
    using lt by (simp add: n_def word_less_nat_alt)
qed

declare insert_loop.simps [simp del] fetch_loop.simps [simp del]
  skip_equal.simps [simp del] dedup_loop.simps [simp del] smt_loop.simps [simp del]

text \<open>
  \<open>smt_calculate_root\<close>: \<open>Some (Inr root)\<close> where the C function returns 0 with \<open>root\<close> in
  \<open>buffer\<close>; \<open>stack_values[0]\<close> is the bottom frame.
\<close>

definition interp_init :: interp where
  "interp_init = \<lparr>proof_index = 0, leave_index = 0, stack = []\<rparr>"

definition smt_finish :: "smt_state_t \<Rightarrow> interp \<Rightarrow> SMTErrorCode + u8 list" where
  "smt_finish st m =
     (if leave_index m \<noteq> len st then Inl ERROR_INVALID_PROOF
      else if stack_top m \<noteq> 1 then Inl ERROR_INVALID_STACK
      else Inr (take 32 (snd (last (stack m)))))"

definition smt_calculate_root ::
  "hash_fn \<Rightarrow> smt_state_t \<Rightarrow> u8 list \<Rightarrow> (SMTErrorCode + u8 list) option" where
  "smt_calculate_root H st proof =
     (case smt_loop H st proof interp_init of
        None \<Rightarrow> None
      | Some (Inl e) \<Rightarrow> Some (Inl e)
      | Some (Inr m) \<Rightarrow> Some (smt_finish st m))"

definition smt_verify ::
  "hash_fn \<Rightarrow> u8 list \<Rightarrow> smt_state_t \<Rightarrow> u8 list \<Rightarrow> (SMTErrorCode + unit) option" where
  "smt_verify H hash st proof =
     (case smt_calculate_root H st proof of
        None \<Rightarrow> None
      | Some (Inl ret) \<Rightarrow> Some (Inl ret)
      | Some (Inr buffer) \<Rightarrow>
          (if \<not> memcmp_eq buffer hash 32 then Some (Inl ERROR_INVALID_PROOF)
           else Some (Inr ())))"

section \<open>Concrete instances\<close>

text \<open>
  A function with 32-byte results that stands for BLAKE2b where a statement is instantiated
  at concrete inputs, and the pairs and states of those instances.
\<close>

definition sample_hash :: hash_fn where
  "sample_hash msg = take 32 (map (\<lambda>b. b + 1) msg @ replicate 32 0)"

definition zero_key :: "u8 list" where
  "zero_key = replicate 32 0"

definition one_value :: "u8 list" where
  "one_value = replicate 31 0 @ [1]"

definition single_leaf_state :: smt_state_t where
  "single_leaf_state =
     \<lparr>pairs = [\<lparr>key = zero_key, val = one_value, order = 0\<rparr>], len = 1, capacity = 1\<rparr>"

text \<open>Every digest on the stack has 32 bytes.\<close>

definition values_ok :: "interp \<Rightarrow> bool" where
  "values_ok m = (\<forall>(k, v) \<in> set (stack m). length v = 32)"


text \<open>
  The sibling validation of \<open>case 0x48\<close>, on the keys of the lower frame \<open>key_a\<close> and of
  the upper frame \<open>key_b\<close>.
\<close>

definition sibling_ok :: "u8 list \<Rightarrow> u8 list \<Rightarrow> u8 \<Rightarrow> bool" where
  "sibling_ok key_a key_b height =
     (let a_bit = smt_get_bit key_a (unat height);
          b_bit = smt_get_bit key_b (unat height);
          expected = (if a_bit then smt_copy_bits key_a (unat height)
                      else smt_set_bit (smt_copy_bits key_a (unat height)) (unat height))
      in expected = smt_copy_bits key_b (unat height) \<and> a_bit \<noteq> b_bit)"


text \<open>
  The proofs of the scenarios: \<open>zero_siblings lo hi\<close> are the \<open>0x50\<close> opcodes of the heights
  \<open>lo, \<dots>, hi - 1\<close>, each with an all-zero sibling.
\<close>

definition zero_siblings :: "nat \<Rightarrow> nat \<Rightarrow> u8 list" where
  "zero_siblings lo hi = concat (map (\<lambda>h. [0x50, of_nat h] @ replicate 32 0) [lo..<hi])"

definition S2_proof :: "u8 list" where
  "S2_proof = [0x4C] @ zero_siblings 0 256"

definition S3_proof :: "u8 list" where
  "S3_proof = [0x4C, 0x4C, 0x48, 0] @ zero_siblings 1 256"


definition S5_proof :: "u8 list" where
  "S5_proof = [0x4C, 0x50] @ replicate 20 0"

text \<open>
  A proof of 4294967290 bytes whose last opcode \<open>0x50\<close> stands at index 4294967279, so that
  \<open>proof_index + 33\<close> wraps around in \<open>uint32_t\<close>.
\<close>

definition wrapping_proof :: "u8 list" where
  "wrapping_proof = [0x4C] @ zero_siblings 0 126322567 @ [0x50] @ replicate 10 0"

text \<open>
  \<open>reaches H s proof m0 m\<close>: the loop, started with the variables \<open>m0\<close>, arrives at its
  head with the variables \<open>m\<close>.
\<close>

inductive reaches :: "hash_fn \<Rightarrow> smt_state_t \<Rightarrow> u8 list \<Rightarrow> interp \<Rightarrow> interp \<Rightarrow> bool"
  for H s "proof" where
  reaches_refl: "reaches H s proof m m"
| reaches_step: "reaches H s proof m0 m \<Longrightarrow> proof_index m < of_nat (length proof)
      \<Longrightarrow> smt_step H s proof m = Some (Inr m') \<Longrightarrow> reaches H s proof m0 m'"


text \<open>
  A sequence of calls of \<open>smt_state_insert\<close>, stopped by the first error, and the call of
  \<open>smt_state_fetch\<close> after it. \<open>latest_insert kvs k\<close> is the value of the most recent pair
  of \<open>kvs\<close> with the key \<open>k\<close>, as the specification words it; \<open>entries st\<close> are the pairs
  of the state below \<open>len\<close>, and \<open>bytes32\<close> says that keys and values are 32-byte arrays.
\<close>

fun insert_all :: "smt_state_t \<Rightarrow> (u8 list \<times> u8 list) list \<Rightarrow> SMTErrorCode + smt_state_t" where
  "insert_all st [] = Inr st"
| "insert_all st ((k, v) # kvs) =
     (case smt_state_insert st k v of Inl e \<Rightarrow> Inl e | Inr st' \<Rightarrow> insert_all st' kvs)"

definition insert_then_fetch ::
  "smt_state_t \<Rightarrow> (u8 list \<times> u8 list) list \<Rightarrow> u8 list \<Rightarrow> SMTErrorCode + u8 list" where
  "insert_then_fetch st kvs k =
     (case insert_all st kvs of Inl e \<Rightarrow> Inl e | Inr st' \<Rightarrow> smt_state_fetch st' k)"

definition latest_insert :: "(u8 list \<times> u8 list) list \<Rightarrow> u8 list \<Rightarrow> u8 list option" where
  "latest_insert kvs k = map_of (rev kvs) k"

definition entries :: "smt_state_t \<Rightarrow> (u8 list \<times> u8 list) list" where
  "entries st = map (\<lambda>p. (key p, val p)) (take (unat (len st)) (pairs st))"

definition bytes32 :: "(u8 list \<times> u8 list) list \<Rightarrow> bool" where
  "bytes32 kvs = list_all (\<lambda>(k, v). length k = 32 \<and> length v = 32) kvs"

definition state_ok :: "smt_state_t \<Rightarrow> bool" where
  "state_ok st \<longleftrightarrow> length (pairs st) = unat (capacity st) \<and> len st \<le> capacity st
     \<and> bytes32 (entries st)"


text \<open>
  What the duplicate removal of \<open>smt_state_normalize\<close> computes: \<open>run_heads\<close> keeps the
  first pair of every run of pairs with equal keys, and \<open>kv32\<close> are the 32 key bytes and the
  32 value bytes that the removal copies.
\<close>

definition kv32 :: "smt_pair_t \<Rightarrow> u8 list \<times> u8 list" where
  "kv32 p = (take 32 (key p), take 32 (val p))"

function run_heads :: "smt_pair_t list \<Rightarrow> smt_pair_t list" where
  "run_heads [] = []"
| "run_heads (p # ps) = p # run_heads (dropWhile (\<lambda>q. memcmp_eq (key p) (key q) 32) ps)"
  by pat_completeness auto
termination
  by (relation "measure length") (simp_all add: length_dropWhile_le less_Suc_eq_le)


text \<open>
  The contract of the C library's \<open>qsort\<close> at the call in \<open>smt_state_normalize\<close>: the result
  is a permutation of the first \<open>len\<close> pairs, in ascending order of \<open>_smt_pair_cmp\<close>.
\<close>

definition qsort_sorts :: "qsort_fn \<Rightarrow> smt_state_t \<Rightarrow> bool" where
  "qsort_sorts qs st =
     (let xs = take (unat (len st)) (assign_order (pairs st) (len st))
      in mset (qs smt_pair_cmp xs) = mset xs
       \<and> sorted_wrt (\<lambda>a b. smt_pair_cmp a b \<le> 0) (qs smt_pair_cmp xs))"


text \<open>A state of three inserts, two of them with the same key.\<close>

definition one_key :: "u8 list" where
  "one_key = 1 # replicate 31 0"

definition blank_pair :: smt_pair_t where
  "blank_pair = \<lparr>key = replicate 32 0, val = replicate 32 0, order = 0\<rparr>"

definition three_inserts :: "(u8 list \<times> u8 list) list" where
  "three_inserts = [(one_key, one_value), (zero_key, zero_key), (zero_key, one_value)]"

definition three_state :: smt_state_t where
  "three_state =
     \<lparr>pairs = [\<lparr>key = one_key, val = one_value, order = 0\<rparr>,
               \<lparr>key = zero_key, val = zero_key, order = 0\<rparr>,
               \<lparr>key = zero_key, val = one_value, order = 0\<rparr>],
      len = 3, capacity = 3\<rparr>"


text \<open>
  The digest that opcode \<open>0x4C\<close> pushes for a pair, and a state holding exactly two pairs.
\<close>

definition leaf_digest :: "hash_fn \<Rightarrow> smt_pair_t \<Rightarrow> u8 list" where
  "leaf_digest H p =
     (if smt_zero_value (val p) then replicate 32 0 else H (take 32 (key p) @ take 32 (val p)))"

definition two_leaves :: "smt_pair_t \<Rightarrow> smt_pair_t \<Rightarrow> u32 \<Rightarrow> smt_state_t" where
  "two_leaves pa pb cap = \<lparr>pairs = [pa, pb], len = 2, capacity = cap\<rparr>"


text \<open>A state that holds \<open>2^31\<close> pairs, all with the all-zero key.\<close>

definition full_state :: smt_state_t where
  "full_state = \<lparr>pairs = replicate 2147483648 blank_pair, len = 2147483648,
                  capacity = 2147483648\<rparr>"

section \<open>Facts about the helpers\<close>

lemma smt_zero_value_iff:
  "length v = 32 \<Longrightarrow> smt_zero_value v \<longleftrightarrow> v = replicate 32 0"
  by (auto simp: smt_zero_value_def list_all_iff intro!: nth_equalityI)

lemma length_sample_hash: "length (sample_hash msg) = 32"
  by (simp add: sample_hash_def)

lemma unat_of_nat_le: "unat (of_nat n :: 'a::len word) \<le> n"
  by (simp add: unat_of_nat)

lemma length_smt_merge:
  "\<forall>x. length (H x) = 32 \<Longrightarrow> length a = 32 \<Longrightarrow> length b = 32
   \<Longrightarrow> length (smt_merge H a b) = 32"
  by (simp add: smt_merge_def)

section \<open>Every digest on the stack has 32 bytes\<close>

lemma values_ok_step:
  assumes H: "\<forall>x. length (H x) = 32" and ok: "values_ok m"
    and step: "smt_step H st proof m = Some (Inr m')"
  shows "values_ok m'"
proof -
  let ?m1 = "m\<lparr>proof_index := proof_index m + 1\<rparr>"
  consider (L) "case_0x4C H st ?m1 = Some (Inr m')"
    | (P) "case_0x50 H proof ?m1 = Some (Inr m')"
    | (Hc) "case_0x48 H proof ?m1 = Some (Inr m')"
    using step by (auto simp: smt_step_def Let_def split: if_splits)
  then show ?thesis
  proof cases
    case L
    then show ?thesis using ok H
      by (auto simp: case_0x4C_def values_ok_def Let_def split: if_splits)
  next
    case P
    then obtain k v rest where st: "stack m = (k, v) # rest"
      by (cases "stack m") (auto simp: case_0x50_def Let_def)
    have lv: "length v = 32" using ok st by (auto simp: values_ok_def)
    from P st have bound: "unat (proof_index m + 1) + 33 \<le> length proof"
      using unat_of_nat_le[of "length proof", where 'a=32]
      by (auto simp: case_0x50_def Let_def not_less split: if_splits)
    show ?thesis using P st ok H lv bound
      by (auto simp: case_0x50_def values_ok_def Let_def length_smt_merge split: if_splits)
  next
    case Hc
    then obtain kb vb ka va rest where st: "stack m = (kb, vb) # (ka, va) # rest"
      by (cases "stack m"; cases "tl (stack m)") (auto simp: case_0x48_def Let_def)
    show ?thesis using Hc st ok H
      by (auto simp: case_0x48_def values_ok_def Let_def length_smt_merge split: if_splits)
  qed
qed

lemma values_ok_loop:
  "\<forall>x. length (H x) = 32 \<Longrightarrow> values_ok m \<Longrightarrow> smt_loop H st proof m = Some (Inr m')
   \<Longrightarrow> values_ok m'"
proof (induction H st "proof" m rule: smt_loop.induct)
  case (1 H st "proof" m)
  show ?case
  proof (cases "proof_index m < of_nat (length proof)")
    case True
    with "1.prems"(3) obtain m1 where s: "smt_step H st proof m = Some (Inr m1)"
      and l: "smt_loop H st proof m1 = Some (Inr m')"
      by (subst (asm) smt_loop.simps) (auto split: option.splits sum.splits)
    have "values_ok m1"
      using values_ok_step[OF "1.prems"(1,2) s] .
    then show ?thesis
      using "1.IH"[OF True s refl "1.prems"(1) _ l] by blast
  next
    case False
    then show ?thesis using "1.prems" by (subst (asm) smt_loop.simps) simp
  qed
qed

lemma values_ok_init: "values_ok interp_init"
  by (simp add: values_ok_def interp_init_def)

lemma root_length:
  assumes "\<forall>x. length (H x) = 32" and "smt_calculate_root H st proof = Some (Inr root)"
  shows "length root = 32"
proof -
  from assms(2) obtain m where l: "smt_loop H st proof interp_init = Some (Inr m)"
    and f: "smt_finish st m = Inr root"
    by (auto simp: smt_calculate_root_def split: option.splits sum.splits)
  have "values_ok m" using values_ok_loop[OF assms(1) values_ok_init l] .
  then show ?thesis using f
    by (cases "stack m") (auto simp: smt_finish_def values_ok_def split: if_splits)
qed

lemma length_zero_key: "length zero_key = 32"
  by (simp add: zero_key_def)

lemma length_one_value: "length one_value = 32"
  by (simp add: one_value_def)

lemma one_value_nonzero: "\<not> smt_zero_value one_value"
proof -
  have "one_value ! 31 = 1"
    by (simp add: one_value_def nth_append)
  then have "one_value \<noteq> replicate 32 0"
    by (metis nth_replicate zero_neq_one numeral_less_iff semiring_norm(76,78,79,81))
  then show ?thesis
    by (simp add: smt_zero_value_iff length_one_value)
qed

lemma single_leaf_state_simps:
  "len single_leaf_state = 1"
  "pairs single_leaf_state = [\<lparr>key = zero_key, val = one_value, order = 0\<rparr>]"
  by (simp_all add: single_leaf_state_def)

lemma single_leaf_L:
  "smt_loop sample_hash single_leaf_state [0x4C] interp_init =
     Some (Inr \<lparr>proof_index = 1, leave_index = 1,
                stack = [(zero_key, sample_hash (zero_key @ one_value))]\<rparr>)"
  by (simp add: smt_loop.simps smt_step_def case_0x4C_def interp_init_def
        single_leaf_state_simps one_value_nonzero length_zero_key length_one_value Let_def)

lemma single_leaf_L_root:
  "smt_calculate_root sample_hash single_leaf_state [0x4C] =
     Some (Inr (sample_hash (zero_key @ one_value)))"
  by (simp add: smt_calculate_root_def single_leaf_L smt_finish_def single_leaf_state_simps
        length_sample_hash)

lemma single_leaf_empty:
  "smt_loop sample_hash single_leaf_state [] interp_init = Some (Inr interp_init)"
  by (simp add: smt_loop.simps interp_init_def)

lemma single_leaf_P_root:
  "smt_calculate_root sample_hash single_leaf_state [0x50] = Some (Inl ERROR_INVALID_STACK)"
  by (simp add: smt_calculate_root_def smt_loop.simps smt_step_def case_0x50_def
        interp_init_def Let_def)

section \<open>Bits of a key\<close>

lemma smt_get_bit_iff: "smt_get_bit d i = bit (d ! (i div 8)) (i mod 8)"
  by (simp add: smt_get_bit_def Let_def and_one_eq bit_iff_odd_drop_bit mod_2_eq_odd)

lemma length_smt_set_bit [simp]: "length (smt_set_bit d i) = length d"
  by (simp add: smt_set_bit_def Let_def)

lemma length_smt_clear_bit [simp]: "length (smt_clear_bit d i) = length d"
  by (simp add: smt_clear_bit_def Let_def)

lemma div_mod_8_eq: "(j::nat) = i \<longleftrightarrow> j div 8 = i div 8 \<and> j mod 8 = i mod 8"
  by (metis div_mult_mod_eq)

lemma get_bit_set_bit:
  assumes "i div 8 < length d"
  shows "smt_get_bit (smt_set_bit d i) j = (j = i \<or> smt_get_bit d j)"
proof (cases "j div 8 = i div 8")
  case True
  have "bit (push_bit (i mod 8) (1::u8)) (j mod 8) = (j mod 8 = i mod 8)"
    by (auto simp: bit_exp_iff possible_bit_word)
  then show ?thesis
    using True assms
    by (auto simp: smt_get_bit_iff smt_set_bit_def Let_def bit_or_iff div_mod_8_eq[of j i])
next
  case False
  then show ?thesis
    using assms by (auto simp: smt_get_bit_iff smt_set_bit_def Let_def)
qed

lemma get_bit_clear_bit:
  assumes "i div 8 < length d"
  shows "smt_get_bit (smt_clear_bit d i) j = (j \<noteq> i \<and> smt_get_bit d j)"
proof (cases "j div 8 = i div 8")
  case True
  have "bit (push_bit (i mod 8) (1::u8)) (j mod 8) = (j mod 8 = i mod 8)"
    by (auto simp: bit_exp_iff possible_bit_word)
  then show ?thesis
    using True assms
    by (auto simp: smt_get_bit_iff smt_clear_bit_def Let_def bit_and_iff bit_not_iff
          div_mod_8_eq[of j i])
next
  case False
  then show ?thesis
    using assms by (auto simp: smt_get_bit_iff smt_clear_bit_def Let_def)
qed

lemma length_fold_zero [simp]: "length (fold (\<lambda>i s. s[i := (0::u8)]) [0..<n] d) = length d"
  by (induction n) simp_all

lemma nth_fold_zero:
  "j < length d \<Longrightarrow> fold (\<lambda>i s. s[i := (0::u8)]) [0..<n] d ! j = (if j < n then 0 else d ! j)"
  by (induction n) (auto simp: nth_list_update less_Suc_eq)

lemma length_fold_clear [simp]:
  "length (fold (\<lambda>i s. smt_clear_bit s i) [a..<b] d) = length d"
  by (induction b) simp_all

lemma get_bit_fold_clear:
  "b \<le> 8 * length d \<Longrightarrow>
   smt_get_bit (fold (\<lambda>i s. smt_clear_bit s i) [a..<b] d) j
     = (smt_get_bit d j \<and> \<not> (a \<le> j \<and> j < b))"
proof (induction b)
  case 0
  then show ?case by simp
next
  case (Suc b)
  then have "b div 8 < length d" by auto
  then show ?case using Suc
    by (cases "a \<le> b") (auto simp: get_bit_clear_bit less_Suc_eq)
qed

lemma length_smt_copy_bits [simp]: "length (smt_copy_bits d h) = length d"
  by (simp add: smt_copy_bits_def Let_def)

lemma get_bit_copy_bits:
  assumes "h \<le> 8 * length d" and "j < 8 * length d"
  shows "smt_get_bit (smt_copy_bits d h) j = (h \<le> j \<and> smt_get_bit d j)"
proof -
  let ?z = "fold (\<lambda>i s. s[i := (0::u8)]) [0..<h div 8] d"
  have jl: "j div 8 < length d" using assms(2) by auto
  have z: "smt_get_bit ?z j = (h div 8 \<le> j div 8 \<and> smt_get_bit d j)"
    using jl by (auto simp: smt_get_bit_iff nth_fold_zero)
  have "smt_get_bit (smt_copy_bits d h) j
      = (smt_get_bit ?z j \<and> \<not> (h div 8 * 8 \<le> j \<and> j < h))"
    using assms(1) by (simp add: smt_copy_bits_def Let_def get_bit_fold_clear)
  also have "\<dots> = (h \<le> j \<and> smt_get_bit d j)"
    unfolding z by (auto; presburger)
  finally show ?thesis .
qed

lemma bits_ext:
  assumes "length a = length b" and "\<And>j. j < 8 * length a \<Longrightarrow> smt_get_bit a j = smt_get_bit b j"
  shows "a = b"
proof (rule nth_equalityI)
  show "length a = length b" by fact
next
  fix i assume i: "i < length a"
  show "a ! i = b ! i"
  proof (rule bit_word_eqI)
    fix n assume n: "n < LENGTH(8)"
    then have "8 * i + n < 8 * length a" using i by simp
    from assms(2)[OF this] n show "bit (a ! i) n = bit (b ! i) n"
      by (simp add: smt_get_bit_iff)
  qed
qed

lemma get_bit_zeros: "j < 8 * n \<Longrightarrow> \<not> smt_get_bit (replicate n 0) j"
  by (simp add: smt_get_bit_iff less_mult_imp_div_less mult.commute)


lemma unat_u8_lt: "unat (h :: u8) < 256"
  using unsigned_less[of h, where 'a=nat] by simp

lemma H_valid_iff:
  fixes h :: u8
  assumes la: "length key_a = 32" and lb: "length key_b = 32"
  defines "a_set \<equiv> smt_get_bit key_a (unat h)" and "b_set \<equiv> smt_get_bit key_b (unat h)"
  defines "sib \<equiv> (if \<not> a_set then smt_set_bit (smt_copy_bits key_a (unat h)) (unat h)
                   else smt_copy_bits key_a (unat h))"
  shows "sib = smt_copy_bits key_b (unat h) \<and> a_set \<noteq> b_set
        \<longleftrightarrow> \<not> a_set \<and> b_set \<and> (\<forall>j. unat h < j \<and> j < 256 \<longrightarrow> smt_get_bit key_a j = smt_get_bit key_b j)"
proof -
  have h: "unat h < 256" by (rule unat_u8_lt)
  have sib_bit: "smt_get_bit sib j = (j = unat h \<or> (unat h < j \<and> smt_get_bit key_a j))"
    if "j < 256" for j
    using that h la
    by (auto simp: sib_def a_set_def get_bit_set_bit get_bit_copy_bits less_mult_imp_div_less)
  have b_bit: "smt_get_bit (smt_copy_bits key_b (unat h)) j = (unat h \<le> j \<and> smt_get_bit key_b j)"
    if "j < 256" for j
    using that h lb by (simp add: get_bit_copy_bits)
  have len: "length sib = length (smt_copy_bits key_b (unat h))"
    using la lb by (simp add: sib_def)
  have eq_iff: "sib = smt_copy_bits key_b (unat h)
      \<longleftrightarrow> (\<forall>j<256. smt_get_bit sib j = smt_get_bit (smt_copy_bits key_b (unat h)) j)"
    using bits_ext[OF len] la by (auto simp: sib_def)
  show ?thesis
    unfolding eq_iff
    apply (rule iffI)
    subgoal
      apply (intro conjI allI impI)
      using h sib_bit b_bit b_set_def a_set_def
        apply (metis order_refl)
      using h sib_bit b_bit b_set_def a_set_def
       apply (metis order_refl)
      using h sib_bit b_bit b_set_def a_set_def
      by (metis less_imp_le_nat nat_neq_iff)
    subgoal
      using h sib_bit b_bit b_set_def a_set_def
      by (metis le_eq_less_or_eq)
    done
qed

lemma case_0x48_frames:
  assumes st: "stack m = (key_b, value_b) # (key_a, value_a) # rest"
    and la: "length key_a = 32" and lb: "length key_b = 32"
    and op: "proof_index m < of_nat (length proof)"
  shows "case_0x48 H proof m =
     (let height = proof ! unat (proof_index m) in
      if sibling_ok key_a key_b height
      then Some (Inr (m\<lparr>proof_index := proof_index m + 1,
              stack := (smt_copy_bits key_a (unat height),
                        if smt_get_bit key_a (unat height) then smt_merge H value_b value_a
                        else smt_merge H value_a value_b) # rest\<rparr>))
      else Some (Inl ERROR_INVALID_SIBLING))"
proof -
  have nle: "\<not> of_nat (length proof) \<le> proof_index m"
    using op by simp
  show ?thesis
    unfolding case_0x48_def sibling_ok_def memcmp_eq_def
    apply (simp only: st Let_def nth_Cons_0 nth_Cons_Suc One_nat_def list.size prod.case nle if_False)
    apply (cases "smt_get_bit key_a (unat (proof ! unat (proof_index m)))";
           cases "smt_get_bit key_b (unat (proof ! unat (proof_index m)))")
    apply (simp_all add: la lb)
    done
qed

lemma sibling_ok_bits:
  assumes la: "length key_a = 32" and lb: "length key_b = 32"
  shows "sibling_ok key_a key_b h \<longleftrightarrow>
     \<not> smt_get_bit key_a (unat h) \<and> smt_get_bit key_b (unat h)
     \<and> (\<forall>j. unat h < j \<and> j < 256 \<longrightarrow> smt_get_bit key_a j = smt_get_bit key_b j)"
  using H_valid_iff[OF la lb, of h]
  by (auto simp: sibling_ok_def Let_def)

lemma copy_bits_parent:
  assumes la: "length key_a = 32" and a0: "\<not> smt_get_bit key_a (unat h)"
  shows "smt_copy_bits key_a (unat h) = smt_parent_path key_a h"
proof (cases "h = 255")
  case True
  have "smt_copy_bits key_a 255 = replicate 32 0"
  proof (rule bits_ext)
    show "length (smt_copy_bits key_a 255) = length (replicate 32 (0::u8))"
      using la by simp
  next
    fix j assume "j < 8 * length (smt_copy_bits key_a 255)"
    then have j: "j < 256" using la by simp
    then have "\<not> smt_get_bit (smt_copy_bits key_a 255) j"
      using la a0 True by (cases "j = 255") (auto simp: get_bit_copy_bits)
    then show "smt_get_bit (smt_copy_bits key_a 255) j = smt_get_bit (replicate 32 0) j"
      using get_bit_zeros[of j 32] j by simp
  qed
  then show ?thesis using True la by (simp add: smt_parent_path_def)
next
  case False
  have h: "unat h < 255"
    using False unat_u8_lt[of h] by (simp add: word_unat_eq_iff)
  have "smt_copy_bits key_a (unat h) = smt_copy_bits key_a (unat h + 1)"
  proof (rule bits_ext)
    show "length (smt_copy_bits key_a (unat h)) = length (smt_copy_bits key_a (unat h + 1))"
      by simp
  next
    fix j assume "j < 8 * length (smt_copy_bits key_a (unat h))"
    then have j: "j < 256" using la by simp
    show "smt_get_bit (smt_copy_bits key_a (unat h)) j
        = smt_get_bit (smt_copy_bits key_a (unat h + 1)) j"
      using la a0 h j by (cases "j = unat h") (auto simp: get_bit_copy_bits)
  qed
  then show ?thesis using False by (simp add: smt_parent_path_def)
qed

section \<open>Running the loop\<close>

lemma length_zero_siblings: "length (zero_siblings lo hi) = 34 * (hi - lo)"
  by (induction hi) (auto simp: zero_siblings_def Suc_diff_le)

lemma index_facts:
  fixes i :: u32
  assumes "length proof < 2 ^ 32" and "unat i + 1 < length proof"
  shows "i < of_nat (length proof)" and "i + 1 < of_nat (length proof)"
    and "unat (i + 1) = unat i + 1"
proof -
  have u: "unat (of_nat (length proof) :: u32) = length proof"
    using assms(1) by (simp add: unat_of_nat)
  show "i < of_nat (length proof)"
    using assms(2) u by (simp add: word_less_nat_alt)
  then show "unat (i + 1) = unat i + 1"
    by unat_arith
  then show "i + 1 < of_nat (length proof)"
    using assms(2) u by (simp add: word_less_nat_alt)
qed


lemma S3_proof_length: "length S3_proof = 8674"
  by (simp add: S3_proof_def length_zero_siblings)

lemma S3_proof_nth:
  "S3_proof ! 0 = 0x4C" "S3_proof ! Suc 0 = 0x4C" "S3_proof ! 2 = 0x48" "S3_proof ! 3 = 0"
  by (simp_all add: S3_proof_def)

lemma loop_step:
  "proof_index m < of_nat (length proof) \<Longrightarrow>
   smt_loop H s proof m =
     (case smt_step H s proof m of None \<Rightarrow> None | Some (Inl e) \<Rightarrow> Some (Inl e)
      | Some (Inr m') \<Rightarrow> smt_loop H s proof m')"
  by (subst smt_loop.simps) simp

lemma loop_exit:
  "\<not> proof_index m < of_nat (length proof) \<Longrightarrow> smt_loop H s proof m = Some (Inr m)"
  by (subst smt_loop.simps) simp

lemma S4_invalid_sibling:
  fixes k1 v1 v2 :: "u8 list" and o1 o2 c :: u32
  assumes l1: "length k1 = 32" and b0: "\<not> smt_get_bit k1 0"
  defines "s \<equiv> \<lparr>pairs = [\<lparr>key = smt_set_bit k1 0, val = v2, order = o2\<rparr>,
                           \<lparr>key = k1, val = v1, order = o1\<rparr>], len = 2, capacity = c\<rparr>"
  shows "smt_calculate_root H s S3_proof = Some (Inl ERROR_INVALID_SIBLING)"
proof -
  define d2 where "d2 = (if smt_zero_value v2 then replicate 32 0
                         else H (take 32 (smt_set_bit k1 0) @ take 32 v2))"
  define d1 where "d1 = (if smt_zero_value v1 then replicate 32 0
                         else H (take 32 k1 @ take 32 v1))"
  let ?m1 = "\<lparr>proof_index = 1, leave_index = 1, stack = [(smt_set_bit k1 0, d2)]\<rparr>"
  let ?m2 = "\<lparr>proof_index = 2, leave_index = 2, stack = [(k1, d1), (smt_set_bit k1 0, d2)]\<rparr>"
  have s1: "smt_step H s S3_proof interp_init = Some (Inr ?m1)"
    by (simp add: smt_step_def S3_proof_nth case_0x4C_def interp_init_def s_def Let_def d2_def l1)
  have s2: "smt_step H s S3_proof ?m1 = Some (Inr ?m2)"
    by (simp add: smt_step_def S3_proof_nth case_0x4C_def s_def Let_def d1_def l1
          word_le_nat_alt)
  have bits: "smt_get_bit (smt_set_bit k1 0) 0"
    using l1 by (simp add: get_bit_set_bit)
  have "\<not> sibling_ok (smt_set_bit k1 0) k1 0"
    using l1 bits by (simp add: sibling_ok_bits)
  then have s3: "smt_step H s S3_proof ?m2 = Some (Inl ERROR_INVALID_SIBLING)"
    using case_0x48_frames[of "?m2\<lparr>proof_index := 3\<rparr>" k1 d1 "smt_set_bit k1 0" d2 "[]" S3_proof H] l1
    by (simp add: smt_step_def S3_proof_nth Let_def S3_proof_length)
  show ?thesis
    by (simp add: smt_calculate_root_def loop_step S3_proof_length interp_init_def
          s1[unfolded interp_init_def] s2 s3)
qed



lemma set_bit_zero_key_bits:
  "\<not> smt_get_bit zero_key 0" "smt_get_bit (smt_set_bit zero_key 0) 0"
  "length (smt_set_bit zero_key 0) = 32" "smt_set_bit zero_key 0 \<noteq> zero_key"
proof -
  show a: "\<not> smt_get_bit zero_key 0"
    using get_bit_zeros[of 0 32] by (simp add: zero_key_def)
  show b: "smt_get_bit (smt_set_bit zero_key 0) 0"
    by (simp add: get_bit_set_bit length_zero_key)
  show "length (smt_set_bit zero_key 0) = 32"
    by (simp add: length_zero_key)
  show "smt_set_bit zero_key 0 \<noteq> zero_key"
    using a b by auto
qed

section \<open>The \<open>0x50\<close> opcode and runs of all-zero siblings\<close>

lemma copy_bits_zeros: "h \<le> 256 \<Longrightarrow> smt_copy_bits (replicate 32 0) h = replicate 32 0"
proof (rule bits_ext)
  show "length (smt_copy_bits (replicate 32 0) h) = length (replicate 32 (0::u8))"
    by simp
next
  fix j assume h: "h \<le> 256" and "j < 8 * length (smt_copy_bits (replicate 32 0) h)"
  then have j: "j < 256" by simp
  then show "smt_get_bit (smt_copy_bits (replicate 32 0) h) j = smt_get_bit (replicate 32 0) j"
    using h get_bit_zeros[of j 32] by (simp add: get_bit_copy_bits)
qed

lemma parent_path_zeros: "smt_parent_path (replicate 32 0) h = replicate 32 0"
  using unat_u8_lt[of h] by (simp add: smt_parent_path_def copy_bits_zeros)

lemma merge_zero_right: "length d = 32 \<Longrightarrow> smt_merge H d (replicate 32 0) = d"
  by (auto simp: smt_merge_def smt_zero_value_iff)

lemma unat_of_nat32: "n < 2 ^ 32 \<Longrightarrow> unat (of_nat n :: u32) = n"
  by (simp add: unat_of_nat)

lemma unat_add_small:
  fixes i :: u32
  assumes "unat i + n < 2 ^ 32"
  shows "unat (i + of_nat n) = unat i + n"
proof -
  have "n < 2 ^ 32" using assms by simp
  then have "unat (of_nat n :: u32) = n" by (rule unat_of_nat32)
  then show ?thesis
    using assms unat_add_lem[of i "of_nat n"] by simp
qed

lemma case_0x50_run:
  assumes frames: "stack m = (k, v) # rest"
    and bound: "unat (proof_index m) + 33 \<le> length proof" and len: "length proof < 2 ^ 32"
  shows "case_0x50 H proof m =
     (let height = proof ! unat (proof_index m);
          current_proof = take 32 (drop (unat (proof_index m) + 1) proof)
      in Some (Inr (m\<lparr>proof_index := proof_index m + 33,
           stack := (smt_parent_path k height,
                     if smt_get_bit k (unat height) then smt_merge H current_proof v
                     else smt_merge H v current_proof) # rest\<rparr>)))"
proof -
  have upl: "unat (of_nat (length proof) :: u32) = length proof"
    using len by (simp add: unat_of_nat32)
  have "unat (proof_index m + 33) = unat (proof_index m) + 33"
    using unat_add_small[of "proof_index m" 33] bound len by simp
  then have chk: "\<not> (of_nat (length proof) :: u32) < proof_index m + 33"
    using bound upl by (simp add: word_less_nat_alt)
  have chk2: "\<not> unat (of_nat (length proof) :: u32) < unat (proof_index m) + 33"
    using bound upl by simp
  show ?thesis
    unfolding case_0x50_def Let_def
    by (simp only: frames chk chk2 list.sel prod.case if_False list.size) simp
qed

lemma smt_step_0x50:
  assumes opc: "proof ! unat (proof_index m) = 0x50"
    and frames: "stack m = (k, v) # rest"
    and bound: "unat (proof_index m) + 34 \<le> length proof" and len: "length proof < 2 ^ 32"
  shows "smt_step H s proof m =
     (let height = proof ! (unat (proof_index m) + 1);
          current_proof = take 32 (drop (unat (proof_index m) + 2) proof)
      in Some (Inr (m\<lparr>proof_index := proof_index m + 34,
           stack := (smt_parent_path k height,
                     if smt_get_bit k (unat height) then smt_merge H current_proof v
                     else smt_merge H v current_proof) # rest\<rparr>)))"
proof -
  let ?m1 = "m\<lparr>proof_index := proof_index m + 1\<rparr>"
  have u1: "unat (proof_index m + 1) = unat (proof_index m) + 1"
    using unat_add_small[of "proof_index m" 1] bound len by simp
  have f1: "stack ?m1 = (k, v) # rest" using frames by simp
  have b1: "unat (proof_index ?m1) + 33 \<le> length proof" using u1 bound by simp
  have "smt_step H s proof m = case_0x50 H proof ?m1"
    using opc by (simp add: smt_step_def Let_def)
  also note case_0x50_run[OF f1 b1 len, of H]
  finally show ?thesis
    by (simp add: Let_def u1 add.assoc)
qed

lemma P_step_zero:
  assumes p: "proof = pre @ [0x50, h] @ replicate 32 0 @ post"
    and len: "length proof < 2 ^ 32" and d: "length d = 32"
    and idx: "unat (proof_index m) = length pre"
    and frames: "stack m = (replicate 32 0, d) # rest"
  shows "smt_step H s proof m = Some (Inr (m\<lparr>proof_index := proof_index m + 34\<rparr>))"
proof -
  have opc: "proof ! unat (proof_index m) = 0x50"
    by (simp add: p idx nth_append)
  have hgt: "proof ! (unat (proof_index m) + 1) = h"
    by (simp add: p idx nth_append)
  have sib: "take 32 (drop (unat (proof_index m) + 2) proof) = replicate 32 0"
    by (simp add: p idx)
  have bound: "unat (proof_index m) + 34 \<le> length proof"
    by (simp add: p idx)
  have nb: "\<not> smt_get_bit (replicate 32 0) (unat h)"
    using get_bit_zeros[of "unat h" 32] unat_u8_lt[of h] by simp
  have "m\<lparr>proof_index := proof_index m + 34, stack := (replicate 32 0, d) # rest\<rparr>
      = m\<lparr>proof_index := proof_index m + 34\<rparr>"
    using frames by (cases m) simp
  then show ?thesis
    unfolding smt_step_0x50[OF opc frames bound len] Let_def hgt sib
    by (simp only: nb if_False merge_zero_right[OF d] parent_path_zeros)
qed


lemma zero_siblings_Cons:
  "lo < hi \<Longrightarrow> zero_siblings lo hi = [0x50, of_nat lo] @ replicate 32 0 @ zero_siblings (Suc lo) hi"
  by (simp add: zero_siblings_def upt_conv_Cons)

lemma zero_run:
  assumes len: "length proof < 2 ^ 32" and d: "length d = 32"
  shows "proof = pre @ zero_siblings lo hi @ post \<Longrightarrow> unat (proof_index m) = length pre
    \<Longrightarrow> stack m = (replicate 32 0, d) # rest \<Longrightarrow> lo \<le> hi
    \<Longrightarrow> smt_loop H s proof m
        = smt_loop H s proof (m\<lparr>proof_index := proof_index m + of_nat (34 * (hi - lo))\<rparr>)"
proof (induction "hi - lo" arbitrary: lo pre m)
  case 0
  then show ?case by simp
next
  case (Suc n)
  then have lt: "lo < hi" by simp
  let ?post = "zero_siblings (Suc lo) hi @ post"
  let ?m1 = "m\<lparr>proof_index := proof_index m + 34\<rparr>"
  have p: "proof = pre @ [0x50, of_nat lo] @ replicate 32 0 @ ?post"
    using Suc.prems(1) zero_siblings_Cons[OF lt] by simp
  have step: "smt_step H s proof m = Some (Inr ?m1)"
    by (rule P_step_zero[OF p len d Suc.prems(2) Suc.prems(3)])
  have upl: "unat (of_nat (length proof) :: u32) = length proof"
    using len by (simp add: unat_of_nat32)
  have "unat (proof_index m) < length proof"
    using Suc.prems(2) by (simp add: p)
  then have "proof_index m < of_nat (length proof)"
    using upl by (simp add: word_less_nat_alt)
  then have l1: "smt_loop H s proof m = smt_loop H s proof ?m1"
    by (simp add: loop_step step)
  have bound: "unat (proof_index m) + 34 < 2 ^ 32"
    using Suc.prems(2) len by (simp add: p)
  have u: "unat (proof_index ?m1) = length (pre @ [0x50, of_nat lo] @ replicate 32 0)"
    using unat_add_small[of "proof_index m" 34] bound Suc.prems(2) by simp
  have p': "proof = (pre @ [0x50, of_nat lo] @ replicate 32 0) @ zero_siblings (Suc lo) hi @ post"
    using p by simp
  have n: "n = hi - Suc lo" using Suc.hyps(2) by simp
  define j where "j = proof_index ?m1 + of_nat (34 * (hi - Suc lo))"
  have f1: "stack ?m1 = (replicate 32 0, d) # rest"
    using Suc.prems(3) by simp
  have le1: "Suc lo \<le> hi" using lt by simp
  have "smt_loop H s proof ?m1 = smt_loop H s proof (?m1\<lparr>proof_index := j\<rparr>)"
    unfolding j_def by (rule Suc.hyps(1)[OF n p' u f1 le1])
  moreover have "?m1\<lparr>proof_index := j\<rparr> = m\<lparr>proof_index := j\<rparr>"
    by simp
  moreover have "j = proof_index m + of_nat (34 * (hi - lo))"
  proof -
    have "34 * (hi - lo) = 34 + 34 * (hi - Suc lo)" using lt by simp
    then have "(of_nat (34 * (hi - lo)) :: u32) = 34 + of_nat (34 * (hi - Suc lo))"
      by (metis of_nat_add of_nat_numeral)
    then show ?thesis by (simp add: j_def add.assoc)
  qed
  ultimately show ?case
    using l1 by (simp only:)
qed

lemma length_S2_proof: "length S2_proof = 8705"
  by (simp add: S2_proof_def length_zero_siblings)


section \<open>Truncated operands and stack underflow\<close>

lemma reaches_loop:
  "reaches H s proof m0 m \<Longrightarrow> smt_loop H s proof m0 = smt_loop H s proof m"
  by (induction rule: reaches.induct) (simp_all add: loop_step)

lemma index_lt:
  fixes i :: u32
  assumes "length proof < 2 ^ 32" and "unat i < length proof"
  shows "i < of_nat (length proof)"
  using assms by (simp add: word_less_nat_alt unat_of_nat32)

lemma smt_step_dispatch:
  "proof ! unat (proof_index m) = 0x4C
     \<Longrightarrow> smt_step H s proof m = case_0x4C H s (m\<lparr>proof_index := proof_index m + 1\<rparr>)"
  "proof ! unat (proof_index m) = 0x50
     \<Longrightarrow> smt_step H s proof m = case_0x50 H proof (m\<lparr>proof_index := proof_index m + 1\<rparr>)"
  "proof ! unat (proof_index m) = 0x48
     \<Longrightarrow> smt_step H s proof m = case_0x48 H proof (m\<lparr>proof_index := proof_index m + 1\<rparr>)"
  by (simp_all add: smt_step_def Let_def)

lemma case_0x50_truncated:
  "stack m \<noteq> [] \<Longrightarrow> (of_nat (length proof) :: u32) < proof_index m + 33
   \<Longrightarrow> case_0x50 H proof m = Some (Inl ERROR_INVALID_PROOF)"
  by (simp add: case_0x50_def Let_def)

lemma truncated_0x50:
  assumes op: "proof ! unat (proof_index m) = 0x50"
    and ne: "stack m \<noteq> []"
    and len: "length proof + 33 < 2 ^ 32"
    and at: "unat (proof_index m) < length proof"
    and short: "length proof - (unat (proof_index m) + 1) < 33"
  shows "smt_step H s proof m = Some (Inl ERROR_INVALID_PROOF)"
proof -
  let ?m1 = "m\<lparr>proof_index := proof_index m + 1\<rparr>"
  have upl: "unat (of_nat (length proof) :: u32) = length proof"
    using len by (simp add: unat_of_nat32)
  have u1: "unat (proof_index m + 1) = unat (proof_index m) + 1"
    using unat_add_small[of "proof_index m" 1] at len by simp
  have "unat (proof_index m + 1 + 33) = unat (proof_index m + 1) + 33"
    using unat_add_small[of "proof_index m + 1" 33] at len u1 by simp
  then have "(of_nat (length proof) :: u32) < proof_index m + 1 + 33"
    using short at upl u1 unfolding word_less_nat_alt by simp
  then have chk: "(of_nat (length proof) :: u32) < proof_index ?m1 + 33"
    by simp
  have ne1: "stack ?m1 \<noteq> []" using ne by simp
  show ?thesis
    unfolding smt_step_dispatch(2)[OF op] by (rule case_0x50_truncated[OF ne1 chk])
qed

lemma truncated_0x48:
  assumes op: "proof ! unat (proof_index m) = 0x48"
    and depth: "2 \<le> length (stack m)"
    and len: "length proof < 2 ^ 32"
    and at: "unat (proof_index m) < length proof"
    and short: "length proof - (unat (proof_index m) + 1) = 0"
  shows "smt_step H s proof m = Some (Inl ERROR_INVALID_PROOF)"
proof -
  have upl: "unat (of_nat (length proof) :: u32) = length proof"
    using len by (simp add: unat_of_nat32)
  have "unat (proof_index m + 1) = unat (proof_index m) + 1"
    using unat_add_small[of "proof_index m" 1] at len by simp
  then have chk: "(of_nat (length proof) :: u32) \<le> proof_index m + 1"
    using short at upl by (simp add: word_le_nat_alt)
  show ?thesis
    using op depth chk by (simp add: smt_step_def case_0x48_def Let_def)
qed

lemma underflow_0x50:
  "proof ! unat (proof_index m) = 0x50 \<Longrightarrow> stack m = []
   \<Longrightarrow> smt_step H s proof m = Some (Inl ERROR_INVALID_STACK)"
  by (simp add: smt_step_def case_0x50_def Let_def)

lemma underflow_0x48:
  "proof ! unat (proof_index m) = 0x48 \<Longrightarrow> length (stack m) < 2
   \<Longrightarrow> smt_step H s proof m = Some (Inl ERROR_INVALID_STACK)"
  by (simp add: smt_step_def case_0x48_def Let_def)

lemma reaches_error:
  assumes "reaches H s proof interp_init m" and "proof_index m < of_nat (length proof)"
    and "smt_step H s proof m = Some (Inl e)"
  shows "smt_calculate_root H s proof = Some (Inl e)"
  using assms by (simp add: smt_calculate_root_def reaches_loop[OF assms(1)] loop_step)

lemma single_leaf_first_step:
  assumes "proof ! 0 = 0x4C" and "0 < length proof" and "length proof < 2 ^ 32"
  shows "smt_loop sample_hash single_leaf_state proof interp_init
       = smt_loop sample_hash single_leaf_state proof
           \<lparr>proof_index = 1, leave_index = 1,
            stack = [(zero_key, sample_hash (zero_key @ one_value))]\<rparr>"
    and "reaches sample_hash single_leaf_state proof interp_init
           \<lparr>proof_index = 1, leave_index = 1,
            stack = [(zero_key, sample_hash (zero_key @ one_value))]\<rparr>"
proof -
  let ?m1 = "\<lparr>proof_index = 1, leave_index = 1,
            stack = [(zero_key, sample_hash (zero_key @ one_value))]\<rparr>"
  have lt: "proof_index interp_init < of_nat (length proof)"
    using index_lt[OF assms(3), of 0] assms(2) by (simp add: interp_init_def)
  have s1: "smt_step sample_hash single_leaf_state proof interp_init = Some (Inr ?m1)"
    using assms(1)
    by (simp add: smt_step_def case_0x4C_def interp_init_def Let_def single_leaf_state_simps
          one_value_nonzero length_zero_key length_one_value)
  show "smt_loop sample_hash single_leaf_state proof interp_init
       = smt_loop sample_hash single_leaf_state proof ?m1"
    by (simp add: loop_step[OF lt] s1)
  show "reaches sample_hash single_leaf_state proof interp_init ?m1"
    by (rule reaches_step[OF reaches_refl lt s1])
qed

text \<open>The two \<open>0x4C\<close> opcodes of scenario S3 push the two leaves in state order.\<close>

lemma two_leaves_reaches:
  assumes "length (key pa) = 32" and "length (key pb) = 32"
  shows "reaches H (two_leaves pa pb cap) S3_proof interp_init
           \<lparr>proof_index = 2, leave_index = 2,
            stack = [(key pb, leaf_digest H pb), (key pa, leaf_digest H pa)]\<rparr>"
proof -
  let ?s = "two_leaves pa pb cap"
  let ?m1 = "\<lparr>proof_index = 1, leave_index = 1, stack = [(key pa, leaf_digest H pa)]\<rparr>"
  let ?m2 = "\<lparr>proof_index = 2, leave_index = 2,
            stack = [(key pb, leaf_digest H pb), (key pa, leaf_digest H pa)]\<rparr>"
  have s1: "smt_step H ?s S3_proof interp_init = Some (Inr ?m1)"
    using assms
    by (simp add: smt_step_def S3_proof_nth case_0x4C_def interp_init_def two_leaves_def
          Let_def leaf_digest_def)
  have s2: "smt_step H ?s S3_proof ?m1 = Some (Inr ?m2)"
    using assms
    by (simp add: smt_step_def S3_proof_nth case_0x4C_def two_leaves_def Let_def
          leaf_digest_def word_le_nat_alt)
  have lt0: "proof_index interp_init < of_nat (length S3_proof)"
    by (simp add: interp_init_def S3_proof_length)
  have lt1: "proof_index ?m1 < of_nat (length S3_proof)"
    by (simp add: S3_proof_length)
  show ?thesis
    by (rule reaches_step[OF reaches_step[OF reaches_refl lt0 s1] lt1 s2])
qed

section \<open>Insert and fetch\<close>

lemma fetch_loop_neg: "i < 0 \<Longrightarrow> fetch_loop ps k i = Inl ERROR_NOT_FOUND"
  by (subst fetch_loop.simps) simp

lemma insert_loop_neg: "i < 0 \<Longrightarrow> insert_loop ps k i = i"
  by (subst insert_loop.simps) simp

lemma take_Suc_map_rev:
  "m < length ps \<Longrightarrow> rev (map f (take (Suc m) ps)) = f (ps ! m) # rev (map f (take m ps))"
  by (simp add: take_Suc_conv_app_nth)

lemma fetch_loop_spec:
  assumes "length k = 32"
  shows "m \<le> length ps \<Longrightarrow> bytes32 (map (\<lambda>p. (key p, val p)) (take m ps))
    \<Longrightarrow> fetch_loop ps k (int m - 1)
        = (case map_of (rev (map (\<lambda>p. (key p, val p)) (take m ps))) k of
             None \<Rightarrow> Inl ERROR_NOT_FOUND | Some v \<Rightarrow> Inr v)"
proof (induction m)
  case 0
  then show ?case by (simp add: fetch_loop_neg)
next
  case (Suc m)
  have m: "m < length ps" using Suc.prems by simp
  have b: "length (key (ps ! m)) = 32" "length (val (ps ! m)) = 32"
    and b': "bytes32 (map (\<lambda>p. (key p, val p)) (take m ps))"
    using Suc.prems(2) m by (simp_all add: bytes32_def take_Suc_conv_app_nth)
  have IH: "fetch_loop ps k (int m - 1)
        = (case map_of (rev (map (\<lambda>p. (key p, val p)) (take m ps))) k of
             None \<Rightarrow> Inl ERROR_NOT_FOUND | Some v \<Rightarrow> Inr v)"
    using Suc.IH m b' by simp
  have "fetch_loop ps k (int (Suc m) - 1)
      = (if k = key (ps ! m) then Inr (val (ps ! m)) else fetch_loop ps k (int m - 1))"
    using b assms by (subst fetch_loop.simps) (simp add: memcmp_eq_def)
  then show ?case
    unfolding IH take_Suc_map_rev[OF m] by auto
qed


lemma insert_loop_spec:
  assumes "length k = 32"
  shows "m \<le> length ps \<Longrightarrow> bytes32 (map (\<lambda>p. (key p, val p)) (take m ps))
    \<Longrightarrow> (let r = insert_loop ps k (int m - 1) in
          if map_of (rev (map (\<lambda>p. (key p, val p)) (take m ps))) k = None then r < 0
          else 0 \<le> r \<and> nat r < m \<and> key (ps ! nat r) = k
             \<and> map_of (rev (map (\<lambda>p. (key p, val p))
                   (take m (ps[nat r := (ps ! nat r)\<lparr>val := v\<rparr>])))) 
               = (map_of (rev (map (\<lambda>p. (key p, val p)) (take m ps))))(k \<mapsto> v))"
proof (induction m)
  case 0
  then show ?case by (simp add: insert_loop_neg)
next
  case (Suc m)
  let ?kv = "\<lambda>p. (key p, val p)"
  have m: "m < length ps" using Suc.prems by simp
  have b: "length (key (ps ! m)) = 32"
    and b': "bytes32 (map ?kv (take m ps))"
    using Suc.prems(2) m by (simp_all add: bytes32_def take_Suc_conv_app_nth)
  note IH = Suc.IH[OF less_imp_le[OF m] b', unfolded Let_def]
  have unf: "insert_loop ps k (int (Suc m) - 1)
      = (if k = key (ps ! m) then int m else insert_loop ps k (int m - 1))"
    using b assms by (subst insert_loop.simps) (simp add: memcmp_eq_def)
  show ?case
  proof (cases "k = key (ps ! m)")
    case True
    have "take (Suc m) (ps[m := (ps ! m)\<lparr>val := v\<rparr>]) = take m ps @ [(ps ! m)\<lparr>val := v\<rparr>]"
      using m by (simp add: take_Suc_conv_app_nth)
    then show ?thesis
      using True m unf by (simp add: Let_def take_Suc_map_rev[OF m])
  next
    case False
    let ?r = "insert_loop ps k (int m - 1)"
    show ?thesis
    proof (cases "map_of (rev (map ?kv (take m ps))) k = None")
      case True
      then show ?thesis
        using False unf IH by (simp add: Let_def take_Suc_map_rev[OF m])
    next
      case nn: False
      then have r: "0 \<le> ?r" "nat ?r < m" "key (ps ! nat ?r) = k"
        and upd: "map_of (rev (map ?kv (take m (ps[nat ?r := (ps ! nat ?r)\<lparr>val := v\<rparr>]))))
               = (map_of (rev (map ?kv (take m ps))))(k \<mapsto> v)"
        using IH by simp_all
      have len': "m < length (ps[nat ?r := (ps ! nat ?r)\<lparr>val := v\<rparr>])" using m by simp
      have nth': "ps[nat ?r := (ps ! nat ?r)\<lparr>val := v\<rparr>] ! m = ps ! m"
        using r(2) by simp
      show ?thesis
        using False unf r nn
        by (simp add: Let_def take_Suc_map_rev[OF m] take_Suc_map_rev[OF len'] nth' upd
              fun_upd_twist)
    qed
  qed
qed

lemma bytes32_update_val:
  assumes "bytes32 (map (\<lambda>p. (key p, val p)) (take m ps))" and "length v = 32"
  shows "bytes32 (map (\<lambda>p. (key p, val p)) (take m (ps[r := (ps ! r)\<lparr>val := v\<rparr>])))"
proof -
  have "length (key p) = 32 \<and> length (val p) = 32"
    if "p \<in> set (take m (ps[r := (ps ! r)\<lparr>val := v\<rparr>]))" for p
  proof -
    from that obtain i where i: "i < m" "i < length ps"
      and p: "p = ps[r := (ps ! r)\<lparr>val := v\<rparr>] ! i"
      by (auto simp: in_set_conv_nth)
    have "ps ! i \<in> set (take m ps)"
      using i by (metis in_set_conv_nth length_take min_less_iff_conj nth_take)
    then have "length (key (ps ! i)) = 32 \<and> length (val (ps ! i)) = 32"
      using assms(1) by (auto simp: bytes32_def list_all_iff)
    then show ?thesis
      using p i assms(2) by (cases "i = r") simp_all
  qed
  then show ?thesis
    by (auto simp: bytes32_def list_all_iff)
qed

lemma sint_small:
  fixes w :: u32
  assumes "unat w < 2 ^ 31"
  shows "sint w = int (unat w)"
proof -
  have "int (unat w) < 2 ^ 31" using assms by (simp only: of_nat_less_numeral_power_cancel_iff)
  then have a: "uint w < 2 ^ 31" by (simp only: uint_nat)
  have b: "0 \<le> uint w" by simp
  have "signed_take_bit 31 (uint w) = uint w"
  proof (rule signed_take_bit_int_eq_self)
    have "- (2 ^ 31) \<le> (0::int)" by simp
    then show "- (2 ^ 31) \<le> uint w" using b by (rule order_trans)
    show "uint w < 2 ^ 31" by (rule a)
  qed
  then have "sint w = uint w"
    unfolding sint_uint by simp
  then show ?thesis by simp
qed

lemma sint_large:
  fixes w :: u32
  assumes "2 ^ 31 \<le> unat w"
  shows "sint w < 0"
proof -
  have "2 ^ 31 \<le> int (unat w)" using assms by (simp only: numeral_power_le_of_nat_cancel_iff)
  then have "2 ^ 31 \<le> uint w" by (simp only: uint_nat)
  then have "signed_take_bit 31 (uint w) \<le> uint w - 2 ^ Suc 31"
    by (rule signed_take_bit_int_less_eq)
  then have "signed_take_bit 31 (uint w) \<le> uint w - 4294967296"
    by (simp only: power_Suc) simp
  moreover have "uint w < 4294967296" using uint_lt2p[of w] by simp
  ultimately have "signed_take_bit 31 (uint w) < 0" by linarith
  then show ?thesis unfolding sint_uint by simp
qed

lemma sint_len_minus_1:
  fixes n :: u32
  assumes "unat n \<le> 2 ^ 31"
  shows "sint (n - 1) = int (unat n) - 1"
proof (cases "n = 0")
  case True
  then show ?thesis by simp
next
  case False
  then have u: "unat (n - 1) = unat n - 1"
    by (simp add: unat_minus_one)
  have pos: "0 < unat n" using False by (simp add: unat_gt_0)
  then have "unat (n - 1) < 2 ^ 31" using assms u by simp
  then show ?thesis
    using u pos by (simp add: sint_small)
qed

lemma sint_len_minus_1_neg:
  fixes n :: u32
  assumes "2 ^ 31 < unat n"
  shows "sint (n - 1) < 0"
proof -
  have "n \<noteq> 0" using assms by auto
  then have "unat (n - 1) = unat n - 1"
    by (simp add: unat_minus_one)
  then have "2 ^ 31 \<le> unat (n - 1)" using assms by simp
  then show ?thesis by (rule sint_large)
qed


lemma smt_state_init_ok: "length buf = unat cap \<Longrightarrow> state_ok (smt_state_init buf cap)"
  by (simp add: state_ok_def smt_state_init_def entries_def bytes32_def)

lemma unat_Suc_lt:
  fixes n :: u32
  shows "n < c \<Longrightarrow> unat (n + 1) = Suc (unat n)"
  by unat_arith

lemma insert_append:
  assumes ok: "state_ok st" and lt: "len st < capacity st"
  shows "smt_state_insert st k v
       = Inr (st\<lparr>pairs := (pairs st)[unat (len st) :=
                   (pairs st ! unat (len st))\<lparr>key := take 32 k, val := take 32 v\<rparr>],
                len := len st + 1\<rparr>)"
    and "entries (st\<lparr>pairs := (pairs st)[unat (len st) :=
                   (pairs st ! unat (len st))\<lparr>key := take 32 k, val := take 32 v\<rparr>],
                len := len st + 1\<rparr>) = entries st @ [(take 32 k, take 32 v)]"
proof -
  show "smt_state_insert st k v
       = Inr (st\<lparr>pairs := (pairs st)[unat (len st) :=
                   (pairs st ! unat (len st))\<lparr>key := take 32 k, val := take 32 v\<rparr>],
                len := len st + 1\<rparr>)"
    using lt by (simp add: smt_state_insert_def)
  have n: "unat (len st) < length (pairs st)"
    using ok lt by (simp add: state_ok_def word_less_nat_alt)
  show "entries (st\<lparr>pairs := (pairs st)[unat (len st) :=
                   (pairs st ! unat (len st))\<lparr>key := take 32 k, val := take 32 v\<rparr>],
                len := len st + 1\<rparr>) = entries st @ [(take 32 k, take 32 v)]"
    using n by (simp add: entries_def unat_Suc_lt[OF lt] take_Suc_conv_app_nth)
qed

lemma insert_ok:
  assumes ok: "state_ok st" and k: "length k = 32" and v: "length v = 32"
    and ins: "smt_state_insert st k v = Inr st'"
  shows "state_ok st' \<and> capacity st' = capacity st
       \<and> map_of (rev (entries st')) = (map_of (rev (entries st)))(k \<mapsto> v)"
proof (cases "len st < capacity st")
  case True
  note a = insert_append[OF ok True, where k = k and v = v]
  have st': "st' = st\<lparr>pairs := (pairs st)[unat (len st) :=
                   (pairs st ! unat (len st))\<lparr>key := take 32 k, val := take 32 v\<rparr>],
                len := len st + 1\<rparr>"
    using a(1) ins by simp
  have le: "len st + 1 \<le> capacity st"
    using True by (simp add: inc_le)
  have e: "entries st' = entries st @ [(k, v)]"
    using a(2) k v by (simp add: st')
  have "length (pairs st') = unat (capacity st')" "len st' \<le> capacity st'"
    "capacity st' = capacity st"
    using ok le by (simp_all add: st' state_ok_def)
  then show ?thesis
    using ok k v by (simp add: state_ok_def e bytes32_def)
next
  case False
  let ?r = "insert_loop (pairs st) k (sint (len st - 1))"
  have r0: "0 \<le> ?r" and st': "st' = st\<lparr>pairs := (pairs st)[nat ?r :=
                        (pairs st ! nat ?r)\<lparr>val := take 32 v\<rparr>]\<rparr>"
    using ins False by (auto simp: smt_state_insert_def Let_def split: if_splits)
  have small: "unat (len st) \<le> 2 ^ 31"
  proof (rule ccontr)
    assume "\<not> unat (len st) \<le> 2 ^ 31"
    then have "sint (len st - 1) < 0" by (simp add: sint_len_minus_1_neg)
    then show False using r0 by (simp add: insert_loop_neg)
  qed
  have s: "sint (len st - 1) = int (unat (len st)) - 1"
    by (rule sint_len_minus_1[OF small])
  have le: "unat (len st) \<le> length (pairs st)"
    using ok by (simp add: state_ok_def word_le_nat_alt)
  have b: "bytes32 (map (\<lambda>p. (key p, val p)) (take (unat (len st)) (pairs st)))"
    using ok by (simp add: state_ok_def entries_def)
  note spec = insert_loop_spec[OF k le b, of v, unfolded Let_def, folded s]
  have nn: "map_of (rev (map (\<lambda>p. (key p, val p)) (take (unat (len st)) (pairs st)))) k \<noteq> None"
    using spec r0 by (auto split: if_splits)
  have upd: "map_of (rev (entries st')) = (map_of (rev (entries st)))(k \<mapsto> v)"
    using spec nn by (simp add: st' entries_def v)
  have "bytes32 (entries st')"
    using bytes32_update_val[OF b, of "take 32 v" "nat ?r"] v by (simp add: st' entries_def)
  then show ?thesis
    using ok upd by (simp add: state_ok_def st')
qed

lemma insert_all_ok:
  "state_ok st \<Longrightarrow> bytes32 kvs \<Longrightarrow> insert_all st kvs = Inr st'
   \<Longrightarrow> state_ok st' \<and> capacity st' = capacity st
     \<and> map_of (rev (entries st')) = map_of (rev (entries st)) ++ map_of (rev kvs)"
proof (induction kvs arbitrary: st)
  case Nil
  then show ?case by simp
next
  case (Cons kv kvs)
  obtain k v where kv: "kv = (k, v)" by (cases kv)
  from Cons.prems(3) obtain st1 where i1: "smt_state_insert st k v = Inr st1"
    and rest: "insert_all st1 kvs = Inr st'"
    by (auto simp: kv split: sum.splits)
  have k: "length k = 32" and v: "length v = 32" and b: "bytes32 kvs"
    using Cons.prems(2) by (simp_all add: kv bytes32_def)
  note one = insert_ok[OF Cons.prems(1) k v i1]
  have ok1: "state_ok st1" and c1: "capacity st1 = capacity st"
    and m1: "map_of (rev (entries st1)) = (map_of (rev (entries st)))(k \<mapsto> v)"
    using one by blast+
  note ih = Cons.IH[OF ok1 b rest]
  have ok': "state_ok st'" and c': "capacity st' = capacity st1"
    and m': "map_of (rev (entries st')) = map_of (rev (entries st1)) ++ map_of (rev kvs)"
    using ih by blast+
  have "map_of (rev (entries st)) ++ map_of (rev (kv # kvs))
      = (map_of (rev (entries st)))(k \<mapsto> v) ++ map_of (rev kvs)"
    by (simp add: kv)
  then have "map_of (rev (entries st')) = map_of (rev (entries st)) ++ map_of (rev (kv # kvs))"
    unfolding m' m1 by (rule sym)
  moreover have "capacity st' = capacity st"
    using c' c1 by (rule trans)
  ultimately show ?case
    using ok' by (intro conjI)
qed


lemma insert_all_fits:
  "state_ok st \<Longrightarrow> bytes32 kvs \<Longrightarrow> unat (len st) + length kvs \<le> unat (capacity st)
   \<Longrightarrow> \<exists>st'. insert_all st kvs = Inr st' \<and> unat (len st') = unat (len st) + length kvs"
proof (induction kvs arbitrary: st)
  case Nil
  then show ?case by simp
next
  case (Cons kv kvs)
  obtain k v where kv: "kv = (k, v)" by (cases kv)
  let ?st1 = "st\<lparr>pairs := (pairs st)[unat (len st) :=
                   (pairs st ! unat (len st))\<lparr>key := take 32 k, val := take 32 v\<rparr>],
                len := len st + 1\<rparr>"
  have k: "length k = 32" and v: "length v = 32" and b: "bytes32 kvs"
    using Cons.prems(2) by (simp_all add: kv bytes32_def)
  have lt: "len st < capacity st"
    using Cons.prems(3) by (simp add: word_less_nat_alt)
  note a = insert_append[OF Cons.prems(1) lt, where k = k and v = v]
  have u: "unat (len ?st1) = Suc (unat (len st))"
    using unat_Suc_lt[OF lt] by simp
  have le: "len ?st1 \<le> capacity ?st1"
    using lt by (simp add: inc_le)
  have ok1: "state_ok ?st1"
    using Cons.prems(1) le k v unfolding state_ok_def a(2)
    by (simp add: bytes32_def)
  have "unat (len ?st1) + length kvs \<le> unat (capacity ?st1)"
    using Cons.prems(3) u by simp
  from Cons.IH[OF ok1 b this] obtain st' where "insert_all ?st1 kvs = Inr st'"
    and "unat (len st') = unat (len ?st1) + length kvs"
    by blast
  then show ?case
    using a(1) u by (simp add: kv)
qed

lemma fetch_spec:
  assumes ok: "state_ok st" and small: "unat (len st) \<le> 2 ^ 31" and k: "length k = 32"
  shows "smt_state_fetch st k
       = (case map_of (rev (entries st)) k of None \<Rightarrow> Inl ERROR_NOT_FOUND | Some v \<Rightarrow> Inr v)"
proof -
  have le: "unat (len st) \<le> length (pairs st)"
    using ok by (simp add: state_ok_def word_le_nat_alt)
  have b: "bytes32 (map (\<lambda>p. (key p, val p)) (take (unat (len st)) (pairs st)))"
    using ok by (simp add: state_ok_def entries_def)
  show ?thesis
    unfolding smt_state_fetch_def sint_len_minus_1[OF small] entries_def
    by (rule fetch_loop_spec[OF k le b])
qed

lemma fetch_after_inserts:
  assumes buf: "length buf = unat cap" and kvs: "bytes32 kvs" and k: "length k = 32"
    and ins: "insert_all (smt_state_init buf cap) kvs = Inr st"
    and small: "unat (len st) \<le> 2 ^ 31"
  shows "smt_state_fetch st k
       = (case latest_insert kvs k of None \<Rightarrow> Inl ERROR_NOT_FOUND | Some v \<Rightarrow> Inr v)"
proof -
  note a = insert_all_ok[OF smt_state_init_ok[OF buf] kvs ins]
  have "entries (smt_state_init buf cap) = []"
    by (simp add: entries_def smt_state_init_def)
  then have "map_of (rev (entries st)) = map_of (rev kvs)"
    using a by simp
  then show ?thesis
    using fetch_spec[of st k] a small k by (simp add: latest_insert_def)
qed

lemma map_of_replicate: "0 < n \<Longrightarrow> map_of (replicate n (k, v)) k = Some v"
  by (cases n) simp_all


section \<open>Normalisation\<close>

lemma slice_Cons:
  "a < b \<Longrightarrow> b \<le> length ps
   \<Longrightarrow> take (b - a) (drop a ps) = ps ! a # take (b - Suc a) (drop (Suc a) ps)"
proof -
  assume a: "a < b" and b: "b \<le> length ps"
  then have "drop a ps = ps ! a # drop (Suc a) ps"
    by (simp add: Cons_nth_drop_Suc)
  moreover have "b - a = Suc (b - Suc a)"
    using a by arith
  ultimately show ?thesis by simp
qed

lemma skip_equal_spec:
  "nx \<le> n \<Longrightarrow> n \<le> length ps \<Longrightarrow>
   \<exists>r. skip_equal ps (int n) (int item) (int nx) = int r \<and> nx \<le> r \<and> r \<le> n
      \<and> dropWhile (\<lambda>q. memcmp_eq (key (ps ! item)) (key q) 32) (take (n - nx) (drop nx ps))
          = take (n - r) (drop r ps)"
proof (induction "n - nx" arbitrary: nx)
  case 0
  then have "nx = n" by simp
  then show ?case
    by (subst skip_equal.simps) simp
next
  case (Suc d)
  then have lt: "nx < n" by arith
  note sl = slice_Cons[OF lt Suc.prems(2)]
  show ?case
  proof (cases "memcmp_eq (key (ps ! item)) (key (ps ! nx)) 32")
    case True
    have d: "d = n - Suc nx" using Suc.hyps(2) by arith
    from Suc.hyps(1)[OF d _ Suc.prems(2)] lt obtain r where
      r: "skip_equal ps (int n) (int item) (int (Suc nx)) = int r" "Suc nx \<le> r" "r \<le> n"
        "dropWhile (\<lambda>q. memcmp_eq (key (ps ! item)) (key q) 32)
            (take (n - Suc nx) (drop (Suc nx) ps)) = take (n - r) (drop r ps)"
      by auto
    have unf: "skip_equal ps (int n) (int item) (int nx)
        = skip_equal ps (int n) (int item) (int (Suc nx))"
      using True lt by (subst skip_equal.simps) (simp add: add.commute)
    show ?thesis
      unfolding unf sl using r True by auto
  next
    case False
    then have unf: "skip_equal ps (int n) (int item) (int nx) = int nx"
      by (subst skip_equal.simps) simp
    show ?thesis
      unfolding unf sl using False lt by (intro exI[of _ nx]) (simp add: sl)
  qed
qed


lemma bytes32_list_update:
  assumes "bytes32 (map (\<lambda>p. (key p, val p)) (take n ps))"
    and "length (key x) = 32" and "length (val x) = 32"
  shows "bytes32 (map (\<lambda>p. (key p, val p)) (take n (ps[s := x])))"
proof -
  have "set (take n (ps[s := x])) \<subseteq> insert x (set (take n ps))"
    by (simp add: take_update_swap set_update_subset_insert)
  then show ?thesis
    using assms by (auto simp: bytes32_def list_all_iff)
qed

lemma dedup_loop_spec:
  "s \<le> nx \<Longrightarrow> nx \<le> n \<Longrightarrow> n \<le> length ps \<Longrightarrow>
   \<exists>ps' s'. dedup_loop ps (int n) (int s) (int nx) = (ps', int s') \<and> length ps' = length ps
      \<and> s' \<le> n
      \<and> map kv32 (take s' ps')
          = map kv32 (take s ps) @ map kv32 (run_heads (take (n - nx) (drop nx ps)))
      \<and> (bytes32 (map (\<lambda>p. (key p, val p)) (take n ps))
           \<longrightarrow> bytes32 (map (\<lambda>p. (key p, val p)) (take n ps')))"
proof (induction "n - nx" arbitrary: ps s nx rule: less_induct)
  case less
  show ?case
  proof (cases "nx < n")
    case False
    then have "nx = n" using less.prems by simp
    then show ?thesis
      using less.prems by (subst dedup_loop.simps) simp
  next
    case True
    let ?x = "(ps ! s)\<lparr>key := take 32 (key (ps ! nx)), val := take 32 (val (ps ! nx))\<rparr>"
    let ?ps' = "if int nx \<noteq> int s then ps[s := ?x] else ps"
    from skip_equal_spec[of "Suc nx" n ps nx] True less.prems obtain r where
      r: "skip_equal ps (int n) (int nx) (int (Suc nx)) = int r" "Suc nx \<le> r" "r \<le> n"
        "dropWhile (\<lambda>q. memcmp_eq (key (ps ! nx)) (key q) 32)
            (take (n - Suc nx) (drop (Suc nx) ps)) = take (n - r) (drop r ps)"
      by auto
    have unf: "dedup_loop ps (int n) (int s) (int nx)
        = dedup_loop ?ps' (int n) (int (Suc s)) (int r)"
      using True r(1)
      by (subst dedup_loop.simps) (simp add: Let_def add.commute)
    have len': "length ?ps' = length ps" by simp
    have dec: "n - r < n - nx" using r True by arith
    have p1: "Suc s \<le> r" using r(2) less.prems(1) by arith
    have p3: "n \<le> length ?ps'" using less.prems(3) by simp
    from less.hyps[OF dec p1 r(3) p3] obtain ps'' s'' where
      res: "dedup_loop ?ps' (int n) (int (Suc s)) (int r) = (ps'', int s'')"
        "length ps'' = length ?ps'" "s'' \<le> n"
        "map kv32 (take s'' ps'')
          = map kv32 (take (Suc s) ?ps') @ map kv32 (run_heads (take (n - r) (drop r ?ps')))"
        "bytes32 (map (\<lambda>p. (key p, val p)) (take n ?ps'))
           \<longrightarrow> bytes32 (map (\<lambda>p. (key p, val p)) (take n ps''))"
      by blast
    have sl: "s < length ps" using less.prems True by simp
    have t1: "take (Suc s) ?ps' = take s ps @ [?ps' ! s]"
      using sl by (simp add: take_Suc_conv_app_nth)
    have t2: "kv32 (?ps' ! s) = kv32 (ps ! nx)"
      using sl by (simp add: kv32_def)
    have t3: "drop r ?ps' = drop r ps"
      using r less.prems by simp
    have t4: "run_heads (take (n - nx) (drop nx ps))
        = ps ! nx # run_heads (take (n - r) (drop r ps))"
      using slice_Cons[OF True less.prems(3)] r(4) by simp
    have main: "map kv32 (take s'' ps'')
          = map kv32 (take s ps) @ map kv32 (run_heads (take (n - nx) (drop nx ps)))"
      unfolding res(4) t1 t3 t4 using t2 by simp
    have b: "bytes32 (map (\<lambda>p. (key p, val p)) (take n ps''))"
      if b0: "bytes32 (map (\<lambda>p. (key p, val p)) (take n ps))"
    proof -
      have "ps ! nx \<in> set (take n ps)"
        using True less.prems(3) by (metis in_set_conv_nth length_take min.absorb2 nth_take)
      then have "length (key (ps ! nx)) = 32" "length (val (ps ! nx)) = 32"
        using b0 by (auto simp: bytes32_def list_all_iff)
      then have "bytes32 (map (\<lambda>p. (key p, val p)) (take n (ps[s := ?x])))"
        by (intro bytes32_list_update[OF b0]) simp_all
      then have "bytes32 (map (\<lambda>p. (key p, val p)) (take n ?ps'))"
        using b0 by simp
      then show ?thesis using res(5) by blast
    qed
    show ?thesis
      unfolding unf using res(1,2,3) len' main b by auto
  qed
qed

lemma assign_order_fold:
  "m \<le> length ps \<Longrightarrow>
   length (fold (\<lambda>i ps. ps[i := (ps ! i)\<lparr>order := n - of_nat i\<rparr>]) [0..<m] ps) = length ps
   \<and> (\<forall>i < length ps.
        fold (\<lambda>i ps. ps[i := (ps ! i)\<lparr>order := n - of_nat i\<rparr>]) [0..<m] ps ! i
          = (if i < m then (ps ! i)\<lparr>order := n - of_nat i\<rparr> else ps ! i))"
proof (induction m)
  case 0
  then show ?case by simp
next
  case (Suc m)
  then show ?case
    by (auto simp: nth_list_update less_Suc_eq)
qed

lemma assign_order_nth:
  assumes "unat n \<le> length ps" and "i < unat n"
  shows "take (unat n) (assign_order ps n) ! i = (ps ! i)\<lparr>order := n - of_nat i\<rparr>"
    and "length (take (unat n) (assign_order ps n)) = unat n"
  using assign_order_fold[OF assms(1), of n] assms
  by (simp_all add: assign_order_def)

lemma key_cmp_refl [simp]: "key_cmp n a a = 0"
  by (induction n) simp_all

lemma key_cmp_eq_0:
  "n \<le> length a \<Longrightarrow> n \<le> length b \<Longrightarrow> key_cmp n a b = 0 \<longleftrightarrow> take n a = take n b"
proof (induction n)
  case 0
  then show ?case by simp
next
  case (Suc n)
  then have "take (Suc n) a = take n a @ [a ! n]" "take (Suc n) b = take n b @ [b ! n]"
    by (simp_all add: take_Suc_conv_app_nth)
  then show ?case
    using Suc by (auto simp: Let_def word_uint_eq_iff)
qed

lemma key_cmp_trans:
  "key_cmp n a b \<le> 0 \<Longrightarrow> key_cmp n b c \<le> 0 \<Longrightarrow>
     key_cmp n a c \<le> 0 \<and> (key_cmp n a b < 0 \<or> key_cmp n b c < 0 \<longrightarrow> key_cmp n a c < 0)"
proof (induction n)
  case 0
  then show ?case by simp
next
  case (Suc n)
  show ?case
  proof (cases "uint (a ! n) = uint (b ! n)")
    case ab: True
    show ?thesis
    proof (cases "uint (b ! n) = uint (c ! n)")
      case True
      then show ?thesis using ab Suc by (simp add: Let_def)
    next
      case False
      then show ?thesis using ab Suc.prems by (simp add: Let_def)
    qed
  next
    case ab: False
    then have lt: "uint (a ! n) < uint (b ! n)"
      using Suc.prems(1) by (simp add: Let_def)
    show ?thesis
    proof (cases "uint (b ! n) = uint (c ! n)")
      case True
      then show ?thesis using ab lt by (simp add: Let_def)
    next
      case False
      then have "uint (b ! n) < uint (c ! n)"
        using Suc.prems(2) by (simp add: Let_def)
      then show ?thesis using lt by (simp add: Let_def)
    qed
  qed
qed

lemma key_cmp_antisym: "key_cmp n a b = - key_cmp n b a"
  by (induction n) (auto simp: Let_def)

lemma sint_of_nat_diff:
  assumes "i < 2 ^ 31" and "j < 2 ^ 31"
  shows "sint ((of_nat j :: u32) - of_nat i) = int j - int i"
proof (cases "i \<le> j")
  case True
  then have "(of_nat j :: u32) - of_nat i = of_nat (j - i)"
    by simp
  moreover have "unat (of_nat (j - i) :: u32) = j - i"
    using assms by (intro unat_of_nat32) simp
  ultimately show ?thesis
    using sint_small[of "of_nat (j - i)"] assms True by simp
next
  case False
  then have lt: "j < i" by simp
  have e: "(of_nat j :: u32) - of_nat i = - of_nat (i - j)"
    using lt by simp
  have u: "unat (of_nat (i - j) :: u32) = i - j"
    using assms by (intro unat_of_nat32) simp
  have "sint (- (of_nat (i - j) :: u32)) = - int (i - j)"
  proof -
    have "sint (of_nat (i - j) :: u32) = int (i - j)"
      using sint_small[of "of_nat (i - j)"] u assms by simp
    moreover have "sint (- (of_nat (i - j) :: u32))
        = signed_take_bit 31 (- sint (of_nat (i - j) :: u32))"
      by (simp add: sint_word_ariths)
    moreover have "signed_take_bit 31 (- int (i - j)) = - int (i - j)"
    proof (rule signed_take_bit_int_eq_self)
      have "int (i - j) < 2 ^ 31" using assms by simp
      then show "- (2 ^ 31) \<le> - int (i - j)" by simp
      have "- int (i - j) \<le> 0" by simp
      moreover have "(0::int) < 2 ^ 31" by simp
      ultimately show "- int (i - j) < 2 ^ 31" by (rule le_less_trans)
    qed
    ultimately show ?thesis by simp
  qed
  then show ?thesis
    unfolding e using lt by simp
qed

lemma smt_pair_cmp_refl [simp]: "smt_pair_cmp p p = 0"
  by (simp add: smt_pair_cmp_def)

lemma cmp_le_key_le: "smt_pair_cmp p q \<le> 0 \<Longrightarrow> key_cmp 32 (key p) (key q) \<le> 0"
  by (auto simp: smt_pair_cmp_def Let_def split: if_splits)

lemma cmp_le_key_less:
  assumes "smt_pair_cmp p q \<le> 0" and "key p \<noteq> key q"
    and "length (key p) = 32" and "length (key q) = 32"
  shows "key_cmp 32 (key p) (key q) < 0"
proof -
  have "key_cmp 32 (key p) (key q) \<noteq> 0"
    using assms(2-4) key_cmp_eq_0[of 32 "key p" "key q"] by simp
  then show ?thesis
    using assms(1) by (simp add: smt_pair_cmp_def Let_def)
qed

lemma key_less_ne: "key_cmp 32 (key p) (key q) < 0 \<Longrightarrow> key p \<noteq> key q"
  by auto

lemma run_heads_sorted:
  "sorted_wrt (\<lambda>a b. smt_pair_cmp a b \<le> 0) ys \<Longrightarrow> \<forall>p \<in> set ys. length (key p) = 32 \<Longrightarrow>
   set (run_heads ys) \<subseteq> set ys
   \<and> sorted_wrt (\<lambda>p q. key_cmp 32 (key p) (key q) < 0) (run_heads ys)
   \<and> (\<forall>h \<in> set (run_heads ys). \<forall>r \<in> set ys. key r = key h \<longrightarrow> smt_pair_cmp h r \<le> 0)"
proof (induction ys rule: run_heads.induct)
  case 1
  then show ?case by simp
next
  case (2 p ps)
  let ?same = "\<lambda>q. memcmp_eq (key p) (key q) 32"
  let ?rem = "dropWhile ?same ps"
  have same_iff: "?same q \<longleftrightarrow> key q = key p" if "q \<in> set ps" for q
    using that "2.prems"(2) by (auto simp: memcmp_eq_def)
  have rem_sub: "set ?rem \<subseteq> set ps"
    by (rule set_dropWhileD[THEN subsetI])
  have le_p: "smt_pair_cmp p r \<le> 0" if "r \<in> set ps" for r
    using "2.prems"(1) that by simp
  have sorted_ps: "sorted_wrt (\<lambda>a b. smt_pair_cmp a b \<le> 0) ps"
    using "2.prems"(1) by simp
  have sorted_rem: "sorted_wrt (\<lambda>a b. smt_pair_cmp a b \<le> 0) ?rem"
    using sorted_ps by (simp add: dropWhile_eq_drop sorted_wrt_drop)
  have len_rem: "\<forall>q \<in> set ?rem. length (key q) = 32"
    using "2.prems"(2) rem_sub by auto
  have K: "key_cmp 32 (key p) (key r) < 0" if r: "r \<in> set ?rem" for r
  proof (cases ?rem)
    case Nil
    with r have False by (simp only: list.set empty_iff)
    then show ?thesis ..
  next
    case (Cons q rem')
    have q_in: "q \<in> set ps" using Cons rem_sub by (metis list.set_intros(1) subsetD)
    have "\<not> ?same q"
      using Cons by (metis hd_dropWhile list.distinct(1) list.sel(1))
    then have "key p \<noteq> key q" using same_iff[OF q_in] by auto
    then have pq: "key_cmp 32 (key p) (key q) < 0"
      using cmp_le_key_less[OF le_p[OF q_in]] "2.prems"(2) q_in by simp
    show ?thesis
    proof (cases "r = q")
      case True
      then show ?thesis using pq by simp
    next
      case False
      then have "r \<in> set rem'" using r Cons by simp
      then have "smt_pair_cmp q r \<le> 0"
        using sorted_rem Cons by simp
      then have "key_cmp 32 (key q) (key r) \<le> 0" by (rule cmp_le_key_le)
      then show ?thesis
        using key_cmp_trans[of 32 "key p" "key q" "key r"] pq by simp
    qed
  qed
  note IH = "2.IH"[OF sorted_rem len_rem]
  have heads_sub: "set (run_heads ?rem) \<subseteq> set ?rem" using IH by blast
  have a: "set (run_heads (p # ps)) \<subseteq> set (p # ps)"
    using heads_sub rem_sub by auto
  have b: "sorted_wrt (\<lambda>p q. key_cmp 32 (key p) (key q) < 0) (run_heads (p # ps))"
    using IH K heads_sub by auto
  have c: "smt_pair_cmp h r \<le> 0"
    if h: "h \<in> set (run_heads (p # ps))" and r: "r \<in> set (p # ps)" and e: "key r = key h"
    for h r
  proof (cases "h = p")
    case True
    then show ?thesis using r le_p by auto
  next
    case False
    then have h': "h \<in> set (run_heads ?rem)" using h by simp
    then have "h \<in> set ?rem" using heads_sub by blast
    then have ne: "key h \<noteq> key p" using K by fastforce
    have "r \<in> set ?rem"
    proof -
      have "r \<noteq> p" using e ne by auto
      then have rp: "r \<in> set ps" using r by simp
      then have "\<not> ?same r" using same_iff[OF rp] e ne by simp
      moreover have "set ps = set (takeWhile ?same ps) \<union> set ?rem"
        by (metis set_append takeWhile_dropWhile_id)
      ultimately show ?thesis
        using rp by (auto dest: set_takeWhileD)
    qed
    then show ?thesis using IH h' e by blast
  qed
  show ?case using a b c by blast
qed

lemma set_run_heads: "set (run_heads ys) \<subseteq> set ys"
proof (induction ys rule: run_heads.induct)
  case 1
  then show ?case by simp
next
  case (2 p ps)
  then show ?case
    by (auto dest: set_dropWhileD)
qed

lemma kv32_eq: "length (key p) = 32 \<Longrightarrow> length (val p) = 32 \<Longrightarrow> kv32 p = (key p, val p)"
  by (simp add: kv32_def)

lemma map_kv32_eq:
  "bytes32 (map (\<lambda>p. (key p, val p)) xs) \<Longrightarrow> map kv32 xs = map (\<lambda>p. (key p, val p)) xs"
  by (auto simp: bytes32_def list_all_iff kv32_eq)

lemma bytes32_subset:
  "bytes32 (map (\<lambda>p. (key p, val p)) xs) \<Longrightarrow> set ys \<subseteq> set xs
   \<Longrightarrow> bytes32 (map (\<lambda>p. (key p, val p)) ys)"
  by (auto simp: bytes32_def list_all_iff)

lemma ordered_prefix:
  assumes ok: "state_ok st"
  defines "xs \<equiv> take (unat (len st)) (assign_order (pairs st) (len st))"
  shows "length xs = unat (len st)"
    and "\<And>i. i < unat (len st) \<Longrightarrow> xs ! i = (pairs st ! i)\<lparr>order := len st - of_nat i\<rparr>"
    and "map (\<lambda>p. (key p, val p)) xs = entries st"
    and "bytes32 (map (\<lambda>p. (key p, val p)) xs)"
proof -
  have le: "unat (len st) \<le> length (pairs st)"
    using ok by (simp add: state_ok_def word_le_nat_alt)
  show l: "length xs = unat (len st)"
    unfolding xs_def using assign_order_fold[OF le, of "len st"] le
    by (simp add: assign_order_def)
  show n: "xs ! i = (pairs st ! i)\<lparr>order := len st - of_nat i\<rparr>" if "i < unat (len st)" for i
    unfolding xs_def by (rule assign_order_nth(1)[OF le that])
  show e: "map (\<lambda>p. (key p, val p)) xs = entries st"
    using le by (intro nth_equalityI) (simp_all add: l n entries_def)
  show "bytes32 (map (\<lambda>p. (key p, val p)) xs)"
    unfolding e using ok by (simp add: state_ok_def)
qed

lemma normalize_entries:
  assumes ok: "state_ok st" and qs: "qsort_sorts qs st"
  shows "entries (smt_state_normalize qs st)
       = (if 0 < sint (len st)
          then map (\<lambda>p. (key p, val p))
                 (run_heads (qs smt_pair_cmp (take (unat (len st)) (assign_order (pairs st) (len st)))))
          else [])"
proof -
  let ?n = "unat (len st)"
  let ?ps1 = "assign_order (pairs st) (len st)"
  let ?xs = "take ?n ?ps1"
  let ?ys = "qs smt_pair_cmp ?xs"
  let ?ps2 = "?ys @ drop ?n ?ps1"
  let ?kv = "\<lambda>p. (key p, val p)"
  note xs = ordered_prefix[OF ok]
  have ms: "mset ?ys = mset ?xs"
    using qs by (simp add: qsort_sorts_def Let_def)
  have ly: "length ?ys = ?n"
    using mset_eq_length[OF ms] xs(1) by simp
  have sy: "set ?ys = set ?xs"
    using ms by (rule mset_eq_setD)
  show ?thesis
  proof (cases "0 < sint (len st)")
    case False
    then have "dedup_loop ?ps2 (sint (len st)) 0 0 = (?ps2, 0)"
      by (subst dedup_loop.simps) simp
    then show ?thesis
      using False by (simp add: smt_state_normalize_def Let_def entries_def)
  next
    case True
    have small: "?n < 2 ^ 31"
    proof (rule ccontr)
      assume "\<not> ?n < 2 ^ 31"
      then have "sint (len st) < 0" by (intro sint_large) simp
      then show False using True by simp
    qed
    have sn: "sint (len st) = int ?n"
      by (rule sint_small[OF small])
    have l2: "?n \<le> length ?ps2" using ly by simp
    from dedup_loop_spec[of 0 0 ?n ?ps2, OF _ _ l2] obtain ps3 s' where
      res: "dedup_loop ?ps2 (int ?n) (int 0) (int 0) = (ps3, int s')" "s' \<le> ?n"
        "map kv32 (take s' ps3) = map kv32 (take 0 ?ps2) @ map kv32 (run_heads (take (?n - 0) (drop 0 ?ps2)))"
        "bytes32 (map ?kv (take ?n ?ps2)) \<longrightarrow> bytes32 (map ?kv (take ?n ps3))"
      by auto
    have t: "take ?n ?ps2 = ?ys" using ly by simp
    have bys: "bytes32 (map ?kv ?ys)"
      using bytes32_subset[OF xs(4)] sy by simp
    then have b3: "bytes32 (map ?kv (take ?n ps3))"
      using res(4) unfolding t by blast
    have "set (take s' ps3) \<subseteq> set (take ?n ps3)"
      using res(2) by (rule set_take_subset_set_take)
    then have "bytes32 (map ?kv (take s' ps3))"
      using bytes32_subset[OF b3] by simp
    then have e1: "map kv32 (take s' ps3) = map ?kv (take s' ps3)"
      by (rule map_kv32_eq)
    have "bytes32 (map ?kv (run_heads ?ys))"
      using bytes32_subset[OF bys set_run_heads] .
    then have e2: "map kv32 (run_heads ?ys) = map ?kv (run_heads ?ys)"
      by (rule map_kv32_eq)
    have "map kv32 (take s' ps3) = map kv32 (run_heads ?ys)"
      using res(3) unfolding diff_zero drop_0 t by simp
    then have main: "map ?kv (take s' ps3) = map ?kv (run_heads ?ys)"
      unfolding e1 e2 .
    have "s' < 2 ^ 32" using res(2) small by simp
    then have u: "unat (word_of_int (int s') :: u32) = s'"
      by (simp add: unat_of_nat32)
    have "smt_state_normalize qs st = st\<lparr>pairs := ps3, len := word_of_int (int s')\<rparr>"
      using res(1) by (simp add: smt_state_normalize_def Let_def sn)
    then have "entries (smt_state_normalize qs st) = map ?kv (take s' ps3)"
      using u by (simp add: entries_def)
    then show ?thesis
      using main True by simp
  qed
qed

lemma map_of_rev_last:
  "i < length es \<Longrightarrow> fst (es ! i) = k \<Longrightarrow> \<forall>j < length es. fst (es ! j) = k \<longrightarrow> j \<le> i
   \<Longrightarrow> map_of (rev es) k = Some (snd (es ! i))"
proof (induction es rule: rev_induct)
  case Nil
  then show ?case by simp
next
  case (snoc e es)
  show ?case
  proof (cases "i = length es")
    case True
    then show ?thesis using snoc.prems by (cases e) simp
  next
    case False
    then have i: "i < length es" using snoc.prems(1) by simp
    have "fst e \<noteq> k"
    proof
      assume "fst e = k"
      then have "length es \<le> i"
        using snoc.prems(3)[rule_format, of "length es"] by simp
      then show False using i by simp
    qed
    moreover have "map_of (rev es) k = Some (snd (es ! i))"
    proof (rule snoc.IH[OF i])
      show "fst (es ! i) = k" using snoc.prems(2) i by (simp add: nth_append)
      show "\<forall>j<length es. fst (es ! j) = k \<longrightarrow> j \<le> i"
        using snoc.prems(3) by (auto simp: nth_append)
    qed
    ultimately show ?thesis using i by (cases e) (simp add: nth_append)
  qed
qed

lemma strict_keys_distinct:
  "sorted_wrt (\<lambda>p q. key_cmp 32 (fst p) (fst q) < 0) es \<Longrightarrow> distinct (map fst es)"
  by (induction es) fastforce+

lemma unat_len_minus:
  fixes n :: u32
  assumes "i \<le> unat n"
  shows "unat (n - of_nat i) = unat n - i"
proof -
  have "i < 2 ^ 32" using assms unsigned_less[of n, where 'a=nat]
    by (simp add: le_less_trans)
  then have "unat (of_nat i :: u32) = i" by (rule unat_of_nat32)
  moreover have "of_nat i \<le> n"
    using assms \<open>unat (of_nat i :: u32) = i\<close> by (simp add: word_le_nat_alt)
  ultimately show ?thesis
    by (simp add: unat_sub)
qed

text \<open>The retained pairs: each is the pair of lowest order, that is of highest index, among
  the pairs with its key.\<close>

lemma retained_is_last:
  assumes ok: "state_ok st" and qs: "qsort_sorts qs st"
    and mem: "(k, v) \<in> set (entries (smt_state_normalize qs st))"
  shows "\<exists>i < unat (len st). key (pairs st ! i) = k \<and> val (pairs st ! i) = v
           \<and> (\<forall>j < unat (len st). key (pairs st ! j) = k \<longrightarrow> j \<le> i)"
proof -
  let ?n = "unat (len st)"
  let ?xs = "take ?n (assign_order (pairs st) (len st))"
  let ?ys = "qs smt_pair_cmp ?xs"
  note xs = ordered_prefix[OF ok]
  note ne = normalize_entries[OF ok qs]
  have pos: "0 < sint (len st)"
    using mem ne by (auto split: if_splits)
  have small: "?n < 2 ^ 31"
  proof (rule ccontr)
    assume "\<not> ?n < 2 ^ 31"
    then have "sint (len st) < 0" by (intro sint_large) simp
    then show False using pos by simp
  qed
  from mem ne pos obtain h where h: "h \<in> set (run_heads ?ys)" "key h = k" "val h = v"
    by auto
  have ms: "mset ?ys = mset ?xs" and so: "sorted_wrt (\<lambda>a b. smt_pair_cmp a b \<le> 0) ?ys"
    using qs by (simp_all add: qsort_sorts_def Let_def)
  have sy: "set ?ys = set ?xs"
    using ms by (rule mset_eq_setD)
  have k32: "\<forall>p \<in> set ?ys. length (key p) = 32"
    using xs(4) sy by (auto simp: bytes32_def list_all_iff)
  note rh = run_heads_sorted[OF so k32]
  have "h \<in> set ?xs" using rh h(1) sy by blast
  then obtain i where i: "i < ?n" "h = ?xs ! i"
    using xs(1) by (auto simp: in_set_conv_nth)
  have hi: "h = (pairs st ! i)\<lparr>order := len st - of_nat i\<rparr>"
    using i xs(2) by simp
  have last: "j \<le> i" if j: "j < ?n" and kj: "key (pairs st ! j) = k" for j
  proof -
    let ?r = "?xs ! j"
    have rj: "?r = (pairs st ! j)\<lparr>order := len st - of_nat j\<rparr>"
      using j xs(2) by simp
    have "?r \<in> set ?ys" using sy j xs(1) by (metis nth_mem)
    moreover have "key ?r = key h" using rj kj h(2) by simp
    ultimately have "smt_pair_cmp h ?r \<le> 0"
      using rh h(1) by blast
    moreover have "key_cmp 32 (key h) (key ?r) = 0"
      using \<open>key ?r = key h\<close> by simp
    ultimately have "sint (order h - order ?r) \<le> 0"
      by (simp add: smt_pair_cmp_def Let_def)
    moreover have "order h - order ?r = of_nat j - of_nat i"
      unfolding rj hi by simp
    moreover have "sint ((of_nat j :: u32) - of_nat i) = int j - int i"
      using i(1) j small by (intro sint_of_nat_diff) simp_all
    ultimately show ?thesis by simp
  qed
  show ?thesis
    using i(1) h(2,3) hi last by (intro exI[of _ i]) simp
qed

lemma mset_insert_by: "mset (insert_by cmp x xs) = add_mset x (mset xs)"
  by (induction xs) simp_all

lemma mset_insertion_qsort: "mset (insertion_qsort cmp xs) = mset xs"
  by (induction xs) (simp_all add: insertion_qsort_def mset_insert_by)

lemma sorted_insert_by:
  assumes tot: "\<And>a b. a \<in> A \<Longrightarrow> b \<in> A \<Longrightarrow> cmp a b \<le> 0 \<or> cmp b a \<le> (0::int)"
    and tr: "\<And>a b c. a \<in> A \<Longrightarrow> b \<in> A \<Longrightarrow> c \<in> A \<Longrightarrow> cmp a b \<le> 0 \<Longrightarrow> cmp b c \<le> 0
               \<Longrightarrow> cmp a c \<le> 0"
  shows "x \<in> A \<Longrightarrow> set xs \<subseteq> A \<Longrightarrow> sorted_wrt (\<lambda>a b. cmp a b \<le> 0) xs
    \<Longrightarrow> sorted_wrt (\<lambda>a b. cmp a b \<le> 0) (insert_by cmp x xs)"
proof (induction xs)
  case Nil
  then show ?case by simp
next
  case (Cons y ys)
  show ?case
  proof (cases "cmp x y \<le> 0")
    case True
    have "cmp x z \<le> 0" if "z \<in> set ys" for z
    proof -
      have "cmp y z \<le> 0" using Cons.prems(3) that by simp
      then show ?thesis using tr[of x y z] True Cons.prems(1,2) that by auto
    qed
    then show ?thesis using True Cons.prems(3) by simp
  next
    case False
    then have yx: "cmp y x \<le> 0" using tot[of x y] Cons.prems(1,2) by auto
    have "sorted_wrt (\<lambda>a b. cmp a b \<le> 0) (insert_by cmp x ys)"
      using Cons by simp
    moreover have "set (insert_by cmp x ys) = insert x (set ys)"
      using mset_insert_by[of cmp x ys] by (metis set_mset_add_mset_insert set_mset_mset)
    ultimately show ?thesis
      using False yx Cons.prems(3) by simp
  qed
qed

lemma sorted_insertion_qsort:
  assumes tot: "\<And>a b. a \<in> A \<Longrightarrow> b \<in> A \<Longrightarrow> cmp a b \<le> 0 \<or> cmp b a \<le> (0::int)"
    and tr: "\<And>a b c. a \<in> A \<Longrightarrow> b \<in> A \<Longrightarrow> c \<in> A \<Longrightarrow> cmp a b \<le> 0 \<Longrightarrow> cmp b c \<le> 0
               \<Longrightarrow> cmp a c \<le> 0"
  shows "set xs \<subseteq> A \<Longrightarrow> sorted_wrt (\<lambda>a b. cmp a b \<le> 0) (insertion_qsort cmp xs)"
proof (induction xs)
  case Nil
  then show ?case by (simp add: insertion_qsort_def)
next
  case (Cons x xs)
  have s: "set (insertion_qsort cmp xs) \<subseteq> A"
    using Cons.prems mset_insertion_qsort[of cmp xs] by (metis set_mset_mset set_subset_Cons subset_trans)
  have "sorted_wrt (\<lambda>a b. cmp a b \<le> 0) (insert_by cmp x (insertion_qsort cmp xs))"
    by (rule sorted_insert_by[of A cmp, OF tot tr]) (use Cons s in auto)
  then show ?case by (simp add: insertion_qsort_def)
qed

lemma key_cmp_zero_trans:
  assumes "key_cmp n a b = 0" and "key_cmp n b c = 0"
  shows "key_cmp n a c = 0"
proof -
  have "key_cmp n a c \<le> 0"
    using key_cmp_trans[of n a b c] assms by simp
  moreover have "key_cmp n c a \<le> 0"
    using key_cmp_trans[of n c b a] assms key_cmp_antisym[of n c b] key_cmp_antisym[of n b a]
    by simp
  ultimately show ?thesis
    using key_cmp_antisym[of n a c] by simp
qed

lemma insertion_qsort_sorts:
  assumes ok: "state_ok st" and small: "unat (len st) < 2 ^ 31"
  shows "qsort_sorts insertion_qsort st"
proof -
  let ?n = "unat (len st)"
  let ?xs = "take ?n (assign_order (pairs st) (len st))"
  note xs = ordered_prefix[OF ok]
  have ord: "sint (order (?xs ! i) - order (?xs ! j)) = int j - int i"
    if "i < ?n" "j < ?n" for i j
  proof -
    have "order (?xs ! i) - order (?xs ! j) = of_nat j - of_nat i"
      using that xs(2) by simp
    then show ?thesis
      using sint_of_nat_diff[of i j] that small by simp
  qed
  have le_iff: "smt_pair_cmp (?xs ! i) (?xs ! j) \<le> 0 \<longleftrightarrow>
      key_cmp 32 (key (?xs ! i)) (key (?xs ! j)) < 0
      \<or> (key_cmp 32 (key (?xs ! i)) (key (?xs ! j)) = 0 \<and> j \<le> i)"
    if "i < ?n" "j < ?n" for i j
    using ord[OF that] by (auto simp: smt_pair_cmp_def Let_def)
  have tot: "smt_pair_cmp a b \<le> 0 \<or> smt_pair_cmp b a \<le> 0"
    if "a \<in> set ?xs" "b \<in> set ?xs" for a b
  proof -
    from that obtain i j where ij: "i < ?n" "j < ?n" "a = ?xs ! i" "b = ?xs ! j"
      using xs(1) by (metis in_set_conv_nth)
    show ?thesis
      unfolding ij(3,4) le_iff[OF ij(1,2)] le_iff[OF ij(2,1)]
      using key_cmp_antisym[of 32 "key (?xs ! i)" "key (?xs ! j)"] by auto
  qed
  have tr: "smt_pair_cmp a c \<le> 0"
    if "a \<in> set ?xs" "b \<in> set ?xs" "c \<in> set ?xs"
      "smt_pair_cmp a b \<le> 0" "smt_pair_cmp b c \<le> 0" for a b c
  proof -
    from that obtain i j l where ij: "i < ?n" "j < ?n" "l < ?n"
      "a = ?xs ! i" "b = ?xs ! j" "c = ?xs ! l"
      using xs(1) by (metis in_set_conv_nth)
    let ?ka = "key (?xs ! i)" and ?kb = "key (?xs ! j)" and ?kc = "key (?xs ! l)"
    have ab: "key_cmp 32 ?ka ?kb < 0 \<or> (key_cmp 32 ?ka ?kb = 0 \<and> j \<le> i)"
      using that(4) le_iff[OF ij(1,2)] ij by simp
    have bc: "key_cmp 32 ?kb ?kc < 0 \<or> (key_cmp 32 ?kb ?kc = 0 \<and> l \<le> j)"
      using that(5) le_iff[OF ij(2,3)] ij by simp
    have "key_cmp 32 ?ka ?kc < 0 \<or> (key_cmp 32 ?ka ?kc = 0 \<and> l \<le> i)"
    proof (cases "key_cmp 32 ?ka ?kb = 0 \<and> key_cmp 32 ?kb ?kc = 0")
      case True
      then show ?thesis
        using key_cmp_zero_trans[of 32 ?ka ?kb ?kc] ab bc by simp
    next
      case False
      then show ?thesis
        using key_cmp_trans[of 32 ?ka ?kb ?kc] ab bc by auto
    qed
    then show ?thesis
      unfolding ij(4,6) le_iff[OF ij(1,3)] .
  qed
  have "sorted_wrt (\<lambda>a b. smt_pair_cmp a b \<le> 0) (insertion_qsort smt_pair_cmp ?xs)"
    by (rule sorted_insertion_qsort[of "set ?xs" smt_pair_cmp, OF tot tr]) auto
  then show ?thesis
    by (simp add: qsort_sorts_def Let_def mset_insertion_qsort)
qed

lemma three_inserted:
  "insert_all (smt_state_init [blank_pair, blank_pair, blank_pair] 3) three_inserts
     = Inr three_state"
  by code_simp

lemma three_normalized:
  "entries (smt_state_normalize insertion_qsort three_state)
     = [(zero_key, one_value), (one_key, one_value)]"
  by code_simp

lemma three_ordered:
  "take 3 (assign_order (pairs three_state) 3)
     = [\<lparr>key = one_key, val = one_value, order = 3\<rparr>,
        \<lparr>key = zero_key, val = zero_key, order = 2\<rparr>,
        \<lparr>key = zero_key, val = one_value, order = 1\<rparr>]"
  by code_simp


lemma one_key_nonzero: "one_key \<noteq> zero_key"
proof
  assume "one_key = zero_key"
  then have "hd one_key = hd zero_key" by simp
  then show False by (simp add: one_key_def zero_key_def)
qed

lemma len_three_state: "len three_state = 3"
  by (simp add: three_state_def)

lemma three_state_ok: "state_ok three_state"
  using insert_all_ok[OF smt_state_init_ok, of "[blank_pair, blank_pair, blank_pair]" 3
      three_inserts three_state] three_inserted
  by (simp add: three_inserts_def bytes32_def length_zero_key length_one_value one_key_def)

lemma three_sorts: "qsort_sorts insertion_qsort three_state"
  by (rule insertion_qsort_sorts[OF three_state_ok]) (simp add: three_state_def)


text \<open>
  Every key of the sorted array is the key of a retained pair; a state whose \<open>len\<close> is not
  positive as an \<open>int32_t\<close> retains nothing; and for fewer than \<open>2^31\<close> pairs the pair of
  lowest order among those with its key is retained, and is the only retained pair with that key.
\<close>

lemma keys_run_heads:
  "\<forall>p \<in> set ys. length (key p) = 32 \<Longrightarrow> key ` set (run_heads ys) = key ` set ys"
proof (induction ys rule: run_heads.induct)
  case 1
  then show ?case by simp
next
  case (2 p ps)
  let ?same = "\<lambda>q. memcmp_eq (key p) (key q) 32"
  let ?rem = "dropWhile ?same ps"
  have same_iff: "?same q \<longleftrightarrow> key q = key p" if "q \<in> set ps" for q
    using that "2.prems" by (auto simp: memcmp_eq_def)
  have rem_sub: "set ?rem \<subseteq> set ps"
    by (rule set_dropWhileD[THEN subsetI])
  have "\<forall>q \<in> set ?rem. length (key q) = 32"
    using "2.prems" rem_sub by auto
  then have IH: "key ` set (run_heads ?rem) = key ` set ?rem"
    by (rule "2.IH")
  have split: "set ps = set (takeWhile ?same ps) \<union> set ?rem"
    by (metis set_append takeWhile_dropWhile_id)
  have tw: "key q = key p" if q: "q \<in> set (takeWhile ?same ps)" for q
  proof -
    from set_takeWhileD[OF q] have "q \<in> set ps" "?same q" by blast+
    then show ?thesis using same_iff by blast
  qed
  have "key q \<in> insert (key p) (key ` set ?rem)" if q: "q \<in> set ps" for q
  proof (cases "q \<in> set ?rem")
    case True
    then show ?thesis by blast
  next
    case False
    then have "q \<in> set (takeWhile ?same ps)" using q split by blast
    then show ?thesis using tw by blast
  qed
  then have "key ` set ps \<subseteq> insert (key p) (key ` set ?rem)"
    by blast
  moreover have "key ` set ?rem \<subseteq> key ` set ps"
    using rem_sub by blast
  ultimately have "insert (key p) (key ` set ps) = insert (key p) (key ` set ?rem)"
    by blast
  moreover have "key ` set (run_heads (p # ps)) = insert (key p) (key ` set (run_heads ?rem))"
    by (simp only: run_heads.simps list.set image_insert)
  moreover have "key ` set (p # ps) = insert (key p) (key ` set ps)"
    by (simp only: list.set image_insert)
  ultimately show ?case
    using IH by (simp only:)
qed

lemma normalize_large:
  assumes "sint (len st) \<le> 0"
  shows "entries (smt_state_normalize qs st) = []"
proof -
  let ?ps2 = "qs smt_pair_cmp (take (unat (len st)) (assign_order (pairs st) (len st)))
              @ drop (unat (len st)) (assign_order (pairs st) (len st))"
  have "dedup_loop ?ps2 (sint (len st)) 0 0 = (?ps2, 0)"
    using assms by (subst dedup_loop.simps) simp
  then show ?thesis
    by (simp add: smt_state_normalize_def Let_def entries_def)
qed

lemma lowest_is_retained:
  assumes ok: "state_ok st" and qs: "qsort_sorts qs st"
    and small: "unat (len st) < 2 ^ 31"
    and p: "p \<in> set (take (unat (len st)) (assign_order (pairs st) (len st)))"
    and low: "\<forall>r \<in> set (take (unat (len st)) (assign_order (pairs st) (len st))).
                key r = key p \<longrightarrow> order p \<le> order r"
  shows "(key p, val p) \<in> set (entries (smt_state_normalize qs st))"
    and "\<And>v. (key p, v) \<in> set (entries (smt_state_normalize qs st)) \<Longrightarrow> v = val p"
proof -
  let ?n = "unat (len st)"
  let ?xs = "take ?n (assign_order (pairs st) (len st))"
  let ?ys = "qs smt_pair_cmp ?xs"
  let ?E = "entries (smt_state_normalize qs st)"
  note xs = ordered_prefix[OF ok]
  from p obtain j where j: "j < ?n" "p = ?xs ! j"
    using xs(1) by (metis in_set_conv_nth)
  have pj: "key (pairs st ! j) = key p" "val (pairs st ! j) = val p"
      "order p = len st - of_nat j"
    using j xs(2) by simp_all
  show uniq: "v = val p" if mem: "(key p, v) \<in> set ?E" for v
  proof -
    from retained_is_last[OF ok qs mem] obtain i where
      i: "i < ?n" "key (pairs st ! i) = key p" "val (pairs st ! i) = v"
        "\<forall>j < ?n. key (pairs st ! j) = key p \<longrightarrow> j \<le> i"
      by blast
    have ji: "j \<le> i" using i(4) j(1) pj(1) by blast
    have "?xs ! i \<in> set ?xs" using i(1) xs(1) by (metis nth_mem)
    moreover have "key (?xs ! i) = key p" "order (?xs ! i) = len st - of_nat i"
      using i xs(2) by simp_all
    ultimately have "len st - of_nat j \<le> len st - of_nat i"
      using low pj(3) by metis
    then have "?n - j \<le> ?n - i"
      using i(1) j(1) by (simp add: word_le_nat_alt unat_len_minus)
    then have "i \<le> j" using i(1) j(1) by simp
    then have "i = j" using ji by simp
    then show ?thesis using i(3) pj(2) by simp
  qed
  have "sint (len st) = int ?n"
    by (rule sint_small[OF small])
  moreover have "0 < int ?n"
    using j(1) by linarith
  ultimately have pos: "0 < sint (len st)"
    by (simp only:)
  have ms: "mset ?ys = mset ?xs"
    using qs by (simp add: qsort_sorts_def Let_def)
  have sy: "set ?ys = set ?xs"
    using ms by (rule mset_eq_setD)
  have k32: "\<forall>p \<in> set ?ys. length (key p) = 32"
    using xs(4) sy by (auto simp: bytes32_def list_all_iff)
  have "key p \<in> key ` set (run_heads ?ys)"
    unfolding keys_run_heads[OF k32] sy using p by (rule imageI)
  then obtain h where h: "h \<in> set (run_heads ?ys)" "key h = key p"
    by auto
  have E: "?E = map (\<lambda>p. (key p, val p)) (run_heads ?ys)"
    using normalize_entries[OF ok qs] pos by simp
  have "(key h, val h) \<in> set ?E"
    unfolding E using h(1) by (simp add: image_iff) blast
  then have m: "(key p, val h) \<in> set ?E"
    using h(2) by simp
  from uniq[OF m] m show "(key p, val p) \<in> set ?E" by simp
qed

lemma full_state_simps:
  "pairs full_state = replicate 2147483648 blank_pair" "len full_state = 2147483648"
  by (simp_all add: full_state_def)

lemma unat_full: "unat (2147483648 :: u32) = 2147483648"
  by simp

lemma full_state_order:
  "take (unat (len full_state)) (assign_order (pairs full_state) (len full_state)) ! 2147483647
     = blank_pair\<lparr>order := 1\<rparr>"
proof -
  have a: "unat (2147483648 :: u32) \<le> length (replicate 2147483648 blank_pair)"
    by (simp only: length_replicate unat_full)
  have b: "2147483647 < unat (2147483648 :: u32)"
    by simp
  have c: "replicate 2147483648 blank_pair ! 2147483647 = blank_pair"
    by (rule nth_replicate) simp
  have d: "(2147483648 :: u32) - of_nat 2147483647 = 1"
    by simp
  show ?thesis
    unfolding full_state_simps assign_order_nth(1)[OF a b] c d ..
qed

lemma full_state_neg: "sint (len full_state) \<le> 0"
proof -
  have "2 ^ 31 \<le> unat (2147483648 :: u32)"
    by simp
  then have "sint (2147483648 :: u32) < 0"
    by (rule sint_large)
  then show ?thesis
    unfolding full_state_simps by simp
qed

lemma unat_3: "unat (3 :: u32) = 3"
  by simp

section \<open>Claims\<close>

text \<open>
  C1 (scenario S2). The state holds the single pair with the all-zero key and the value
  \<open>0x00\<dots>01\<close>; the proof is \<open>0x4C\<close> followed by the 256 opcodes \<open>0x50\<close> of the heights
  \<open>0, \<dots>, 255\<close> with all-zero siblings. \<open>smt_calculate_root\<close> returns 0 and the root is
  the digest of key \<open>\<parallel>\<close> value (a 32-byte digest, as BLAKE2b-256 gives).
\<close>

theorem C1_single_leaf:
  assumes h32: "length (H (zero_key @ one_value)) = 32"
  shows "smt_calculate_root H
           \<lparr>pairs = \<lparr>key = zero_key, val = one_value, order = ord\<rparr> # buf,
            len = 1, capacity = cap\<rparr> S2_proof
         = Some (Inr (H (zero_key @ one_value)))"
proof -
  let ?s = "\<lparr>pairs = \<lparr>key = zero_key, val = one_value, order = ord\<rparr> # buf,
            len = 1, capacity = cap\<rparr>"
  let ?d = "H (zero_key @ one_value)"
  let ?m1 = "\<lparr>proof_index = 1, leave_index = 1, stack = [(zero_key, ?d)]\<rparr>"
  have len: "length S2_proof < 2 ^ 32"
    by (simp add: length_S2_proof)
  have s1: "smt_step H ?s S2_proof interp_init = Some (Inr ?m1)"
    by (simp add: smt_step_def S2_proof_def case_0x4C_def interp_init_def Let_def
          one_value_nonzero length_zero_key length_one_value)
  have lt0: "proof_index interp_init < of_nat (length S2_proof)"
    by (simp add: interp_init_def length_S2_proof)
  have l0: "smt_loop H ?s S2_proof interp_init = smt_loop H ?s S2_proof ?m1"
    by (simp add: loop_step[OF lt0] s1)
  have p: "S2_proof = [0x4C] @ zero_siblings 0 256 @ []"
    by (simp add: S2_proof_def)
  let ?m2 = "\<lparr>proof_index = 8705, leave_index = 1, stack = [(zero_key, ?d)]\<rparr>"
  have "smt_loop H ?s S2_proof ?m1
      = smt_loop H ?s S2_proof (?m1\<lparr>proof_index := proof_index ?m1 + of_nat (34 * (256 - 0))\<rparr>)"
    by (rule zero_run[OF len h32 p]) (simp_all add: zero_key_def)
  then have l1: "smt_loop H ?s S2_proof ?m1 = smt_loop H ?s S2_proof ?m2"
    by simp
  have l2: "smt_loop H ?s S2_proof ?m2 = Some (Inr ?m2)"
    by (simp add: loop_exit length_S2_proof)
  show ?thesis
    by (simp add: smt_calculate_root_def l0 l1 l2 smt_finish_def h32)
qed

theorem C1_single_leaf_witness:
  "smt_calculate_root sample_hash single_leaf_state S2_proof
     = Some (Inr (sample_hash (zero_key @ one_value)))"
  using C1_single_leaf[of sample_hash 0 "[]" 1]
  by (simp add: length_sample_hash single_leaf_state_def)

text \<open>
  C2. When \<open>0x48\<close> runs on a stack of at least two frames and its height operand is present,
  the step returns \<open>ERROR_INVALID_SIBLING\<close> exactly when the expected sibling (the lower key
  after \<open>_smt_copy_bits\<close>, with bit \<open>height\<close> set iff that bit of the lower key is 0) differs
  from the upper key after \<open>_smt_copy_bits\<close>, or the two bits are equal; when the machine was
  reached from the start of the proof, \<open>smt_calculate_root\<close> then returns that error. With the
  leaves of scenario S3 presented in the opposite order (the key with bit 0 set first),
  \<open>smt_calculate_root\<close> returns \<open>ERROR_INVALID_SIBLING\<close>.
\<close>

theorem C2_H_sibling_check:
  assumes op: "proof ! unat (proof_index m) = 0x48"
    and frames: "stack m = (key_b, value_b) # (key_a, value_a) # rest"
    and la: "length key_a = 32" and lb: "length key_b = 32"
    and len: "length proof < 2 ^ 32"
    and operand: "unat (proof_index m) + 1 < length proof"
  shows "(let h = unat (proof ! unat (proof_index m + 1));
              a_bit = smt_get_bit key_a h;
              b_bit = smt_get_bit key_b h;
              expected = (if a_bit then smt_copy_bits key_a h
                          else smt_set_bit (smt_copy_bits key_a h) h);
              invalid = (expected \<noteq> smt_copy_bits key_b h \<or> a_bit = b_bit)
          in (smt_step H s proof m = Some (Inl ERROR_INVALID_SIBLING) \<longleftrightarrow> invalid)
           \<and> (invalid \<and> reaches H s proof interp_init m
                \<longrightarrow> smt_calculate_root H s proof = Some (Inl ERROR_INVALID_SIBLING)))
       \<and> (length k1 = 32 \<and> \<not> smt_get_bit k1 0 \<longrightarrow>
            smt_calculate_root H
              (two_leaves \<lparr>key = smt_set_bit k1 0, val = v2, order = o2\<rparr>
                          \<lparr>key = k1, val = v1, order = o1\<rparr> c)
              S3_proof = Some (Inl ERROR_INVALID_SIBLING))"
proof -
  let ?m1 = "m\<lparr>proof_index := proof_index m + 1\<rparr>"
  note idx = index_facts[OF len operand]
  have f1: "stack ?m1 = (key_b, value_b) # (key_a, value_a) # rest"
    using frames by simp
  have present: "proof_index ?m1 < of_nat (length proof)"
    using idx(2) by simp
  have step: "smt_step H s proof m = case_0x48 H proof ?m1"
    using op by (simp add: smt_step_def Let_def)
  note c = case_0x48_frames[OF f1 la lb present, of H]
  have A: "smt_step H s proof m = Some (Inl ERROR_INVALID_SIBLING)
      \<longleftrightarrow> \<not> sibling_ok key_a key_b (proof ! unat (proof_index m + 1))"
    unfolding step c by (simp add: Let_def)
  have B: "smt_calculate_root H s proof = Some (Inl ERROR_INVALID_SIBLING)"
    if "\<not> sibling_ok key_a key_b (proof ! unat (proof_index m + 1))"
      and "reaches H s proof interp_init m"
    using that A reaches_error[OF that(2) idx(1)] by simp
  have C: "smt_calculate_root H
              (two_leaves \<lparr>key = smt_set_bit k1 0, val = v2, order = o2\<rparr>
                          \<lparr>key = k1, val = v1, order = o1\<rparr> c)
              S3_proof = Some (Inl ERROR_INVALID_SIBLING)"
    if "length k1 = 32" "\<not> smt_get_bit k1 0"
    using S4_invalid_sibling[OF that, of H v2 o2 v1 o1 c] by (simp add: two_leaves_def)
  show ?thesis
    using A B C
    by (auto simp: Let_def sibling_ok_def)
qed

theorem C2_H_sibling_check_witness:
  "smt_step sample_hash
     (two_leaves \<lparr>key = smt_set_bit zero_key 0, val = one_value, order = 0\<rparr>
                 \<lparr>key = zero_key, val = one_value, order = 0\<rparr> 2) S3_proof
     \<lparr>proof_index = 2, leave_index = 2,
      stack = [(zero_key, sample_hash (zero_key @ one_value)),
               (smt_set_bit zero_key 0, sample_hash (smt_set_bit zero_key 0 @ one_value))]\<rparr>
     = Some (Inl ERROR_INVALID_SIBLING)
   \<and> smt_calculate_root sample_hash
     (two_leaves \<lparr>key = smt_set_bit zero_key 0, val = one_value, order = 0\<rparr>
                 \<lparr>key = zero_key, val = one_value, order = 0\<rparr> 2) S3_proof
     = Some (Inl ERROR_INVALID_SIBLING)
   \<and> smt_step sample_hash
     (two_leaves \<lparr>key = zero_key, val = one_value, order = 0\<rparr>
                 \<lparr>key = smt_set_bit zero_key 0, val = one_value, order = 0\<rparr> 2) S3_proof
     \<lparr>proof_index = 2, leave_index = 2,
      stack = [(smt_set_bit zero_key 0, sample_hash (smt_set_bit zero_key 0 @ one_value)),
               (zero_key, sample_hash (zero_key @ one_value))]\<rparr>
     \<noteq> Some (Inl ERROR_INVALID_SIBLING)"
proof -
  let ?pz = "\<lparr>key = zero_key, val = one_value, order = 0\<rparr>"
  let ?po = "\<lparr>key = smt_set_bit zero_key 0, val = one_value, order = 0\<rparr>"
  let ?dz = "sample_hash (zero_key @ one_value)"
  let ?do = "sample_hash (smt_set_bit zero_key 0 @ one_value)"
  let ?bad = "\<lparr>proof_index = 2, leave_index = 2,
      stack = [(zero_key, ?dz), (smt_set_bit zero_key 0, ?do)]\<rparr>"
  let ?good = "\<lparr>proof_index = 2, leave_index = 2,
      stack = [(smt_set_bit zero_key 0, ?do), (zero_key, ?dz)]\<rparr>"
  have ld: "leaf_digest sample_hash ?pz = ?dz" "leaf_digest sample_hash ?po = ?do"
    by (simp_all add: leaf_digest_def one_value_nonzero length_zero_key length_one_value
          set_bit_zero_key_bits)
  have r: "reaches sample_hash (two_leaves ?po ?pz 2) S3_proof interp_init ?bad"
    using two_leaves_reaches[of ?po ?pz sample_hash 2]
    by (simp add: ld length_zero_key set_bit_zero_key_bits)
  have op: "S3_proof ! unat (proof_index ?bad) = 0x48" "S3_proof ! unat (proof_index ?good) = 0x48"
    by (simp_all add: S3_proof_nth)
  have len: "length S3_proof < 2 ^ 32"
    by (simp add: S3_proof_length)
  have operand: "unat (proof_index ?bad) + 1 < length S3_proof"
      "unat (proof_index ?good) + 1 < length S3_proof"
    by (simp_all add: S3_proof_length)
  have cb: "smt_copy_bits k 0 = k" for k
    by (simp add: smt_copy_bits_def)
  note bad = C2_H_sibling_check[where m = ?bad and H = sample_hash and s = "two_leaves ?po ?pz 2"
      and ?k1.0 = zero_key and ?v1.0 = one_value and ?v2.0 = one_value and ?o1.0 = 0
      and ?o2.0 = 0 and c = 2, OF op(1) _ set_bit_zero_key_bits(3) length_zero_key len operand(1)]
  note good = C2_H_sibling_check[where m = ?good and H = sample_hash and s = "two_leaves ?pz ?po 2"
      and ?k1.0 = zero_key and ?v1.0 = one_value and ?v2.0 = one_value and ?o1.0 = 0
      and ?o2.0 = 0 and c = 2, OF op(2) _ length_zero_key set_bit_zero_key_bits(3) len operand(2)]
  show ?thesis
    using bad good r
    by (simp add: Let_def S3_proof_nth set_bit_zero_key_bits cb length_zero_key)
qed

text \<open>
  C3. When the loop of \<open>smt_calculate_root\<close> has consumed the whole proof without an error
  of an opcode, leaving the variables \<open>m\<close>: a leaf cursor different from \<open>len\<close> gives
  \<open>ERROR_INVALID_PROOF\<close>; otherwise a stack depth different from 1 gives
  \<open>ERROR_INVALID_STACK\<close>; otherwise the result is 0 and the root is the digest of the only
  frame. With \<open>len = 0\<close> and the empty proof the result is \<open>ERROR_INVALID_STACK\<close>.
\<close>

theorem C3_final_checks:
  assumes "\<forall>x. length (H x) = 32"
    and "smt_loop H st proof interp_init = Some (Inr m)"
  shows "smt_calculate_root H st proof =
           (if leave_index m \<noteq> len st then Some (Inl ERROR_INVALID_PROOF)
            else if length (stack m) \<noteq> 1 then Some (Inl ERROR_INVALID_STACK)
            else Some (Inr (snd (hd (stack m)))))
       \<and> smt_calculate_root H (st\<lparr>len := 0\<rparr>) [] = Some (Inl ERROR_INVALID_STACK)"
proof -
  have "values_ok m" using values_ok_loop[OF assms(1) values_ok_init assms(2)] .
  then have "smt_calculate_root H st proof =
           (if leave_index m \<noteq> len st then Some (Inl ERROR_INVALID_PROOF)
            else if length (stack m) \<noteq> 1 then Some (Inl ERROR_INVALID_STACK)
            else Some (Inr (snd (hd (stack m)))))"
    using assms(2)
    by (cases "stack m") (auto simp: smt_calculate_root_def smt_finish_def values_ok_def)
  moreover have "smt_calculate_root H (st\<lparr>len := 0\<rparr>) [] = Some (Inl ERROR_INVALID_STACK)"
    by (simp add: smt_calculate_root_def smt_loop.simps interp_init_def smt_finish_def)
  ultimately show ?thesis by simp
qed

theorem C3_final_checks_witness:
  "smt_calculate_root sample_hash single_leaf_state [0x4C]
     = Some (Inr (sample_hash (zero_key @ one_value)))
   \<and> smt_calculate_root sample_hash single_leaf_state [] = Some (Inl ERROR_INVALID_PROOF)
   \<and> smt_calculate_root sample_hash (single_leaf_state\<lparr>len := 0\<rparr>) []
     = Some (Inl ERROR_INVALID_STACK)"
proof -
  have h: "\<forall>x. length (sample_hash x) = 32"
    by (simp add: length_sample_hash)
  show ?thesis
    using C3_final_checks [OF h single_leaf_L] C3_final_checks [OF h single_leaf_empty]
    by (simp add: single_leaf_state_def interp_init_def)
qed

text \<open>
  C4. For every 32-byte digest \<open>x\<close>, merging with the all-zero digest on either side gives
  \<open>x\<close> back, and for 32-byte digests \<open>x\<close>, \<open>y\<close> that are both non-zero the merge is the
  BLAKE2b-256 digest of \<open>x \<parallel> y\<close>.
\<close>

theorem C4_merge_identity:
  assumes "length x = 32" and "length y = 32"
  shows "smt_merge H (replicate 32 0) x = x
       \<and> smt_merge H x (replicate 32 0) = x
       \<and> (x \<noteq> replicate 32 0 \<and> y \<noteq> replicate 32 0 \<longrightarrow> smt_merge H x y = H (x @ y))"
  using assms by (auto simp: smt_merge_def smt_zero_value_iff)

theorem C4_merge_identity_witness:
  "smt_merge sample_hash (replicate 32 0) (replicate 32 1) = replicate 32 1
   \<and> smt_merge sample_hash (replicate 32 1) (replicate 32 0) = replicate 32 1
   \<and> smt_merge sample_hash (replicate 32 1) (replicate 32 2)
       = sample_hash (replicate 32 1 @ replicate 32 2)"
  using C4_merge_identity [of "replicate 32 1" "replicate 32 2" sample_hash]
  by simp

text \<open>
  C5. A state built by \<open>smt_state_init\<close> and inserts that all return 0 is normalised with a
  \<open>qsort\<close> that meets its contract. Then the keys of the pairs below \<open>len\<close> are strictly
  increasing in the byte-31-first order of \<open>_smt_pair_cmp\<close>, no two of them are equal, and
  the value of every pair is the value of the latest insert of its key.
\<close>

theorem C5_normalize:
  assumes buf: "length buf = unat cap" and kvs: "bytes32 kvs"
    and ins: "insert_all (smt_state_init buf cap) kvs = Inr st"
    and qs: "qsort_sorts qs st"
  shows "sorted_wrt (\<lambda>p q. key_cmp 32 (fst p) (fst q) < 0) (entries (smt_state_normalize qs st))
       \<and> distinct (map fst (entries (smt_state_normalize qs st)))
       \<and> (\<forall>(k, v) \<in> set (entries (smt_state_normalize qs st)). latest_insert kvs k = Some v)"
proof -
  let ?xs = "take (unat (len st)) (assign_order (pairs st) (len st))"
  let ?ys = "qs smt_pair_cmp ?xs"
  note a = insert_all_ok[OF smt_state_init_ok[OF buf] kvs ins]
  have ok: "state_ok st" using a by blast
  have "entries (smt_state_init buf cap) = []"
    by (simp add: entries_def smt_state_init_def)
  then have m: "map_of (rev (entries st)) = map_of (rev kvs)"
    using a by simp
  note xs = ordered_prefix[OF ok]
  have ms: "mset ?ys = mset ?xs" and so: "sorted_wrt (\<lambda>a b. smt_pair_cmp a b \<le> 0) ?ys"
    using qs by (simp_all add: qsort_sorts_def Let_def)
  have k32: "\<forall>p \<in> set ?ys. length (key p) = 32"
    using xs(4) mset_eq_setD[OF ms] by (auto simp: bytes32_def list_all_iff)
  have "sorted_wrt (\<lambda>p q. key_cmp 32 (key p) (key q) < 0) (run_heads ?ys)"
    using run_heads_sorted[OF so k32] by blast
  then have s: "sorted_wrt (\<lambda>p q. key_cmp 32 (fst p) (fst q) < 0)
      (entries (smt_state_normalize qs st))"
    unfolding normalize_entries[OF ok qs] by (simp add: sorted_wrt_map)
  have d: "distinct (map fst (entries (smt_state_normalize qs st)))"
    using s by (rule strict_keys_distinct)
  have l: "latest_insert kvs k = Some v"
    if "(k, v) \<in> set (entries (smt_state_normalize qs st))" for k v
  proof -
    from retained_is_last[OF ok qs that] obtain i where
      i: "i < unat (len st)" "key (pairs st ! i) = k" "val (pairs st ! i) = v"
        "\<forall>j < unat (len st). key (pairs st ! j) = k \<longrightarrow> j \<le> i"
      by blast
    have le: "unat (len st) \<le> length (pairs st)"
      using ok by (simp add: state_ok_def word_le_nat_alt)
    have "map_of (rev (entries st)) k = Some (snd (entries st ! i))"
      using i le by (intro map_of_rev_last) (simp_all add: entries_def)
    then have "map_of (rev kvs) k = Some (snd (entries st ! i))"
      by (simp only: m)
    moreover have "snd (entries st ! i) = v"
      using i le by (simp add: entries_def)
    ultimately show ?thesis
      by (simp add: latest_insert_def)
  qed
  show ?thesis
    using s d l by blast
qed


theorem C5_normalize_witness:
  "sorted_wrt (\<lambda>p q. key_cmp 32 (fst p) (fst q) < 0)
     (entries (smt_state_normalize insertion_qsort three_state))
   \<and> distinct (map fst (entries (smt_state_normalize insertion_qsort three_state)))
   \<and> entries (smt_state_normalize insertion_qsort three_state)
       = [(zero_key, one_value), (one_key, one_value)]
   \<and> latest_insert three_inserts zero_key = Some one_value
   \<and> latest_insert three_inserts one_key = Some one_value"
proof -
  have b: "bytes32 three_inserts"
    by (simp add: three_inserts_def bytes32_def length_zero_key length_one_value one_key_def)
  have l: "length [blank_pair, blank_pair, blank_pair] = unat (3 :: u32)"
    by simp
  show ?thesis
    using C5_normalize[OF l b three_inserted three_sorts]
    by (simp add: three_normalized)
qed

text \<open>
  C6, as stated, fails: of the two pairs with the all-zero key, normalisation assigns order 2
  to the earlier insert and order 1 to the later one, and retains the later one, the pair of
  lower order; the pair of higher order is removed. For a state of \<open>2^31\<close> pairs the loop
  bound \<open>(int32_t)state->len\<close> is negative and no pair is retained at all, although the last
  pair has order 1.
\<close>

theorem C6_counterexample:
  "take 3 (assign_order (pairs three_state) 3)
     = [\<lparr>key = one_key, val = one_value, order = 3\<rparr>,
        \<lparr>key = zero_key, val = zero_key, order = 2\<rparr>,
        \<lparr>key = zero_key, val = one_value, order = 1\<rparr>]
   \<and> entries (smt_state_normalize insertion_qsort three_state)
     = [(zero_key, one_value), (one_key, one_value)]
   \<and> (zero_key, zero_key) \<notin> set (entries (smt_state_normalize insertion_qsort three_state))
   \<and> take (unat (len full_state)) (assign_order (pairs full_state) (len full_state)) ! 2147483647
     = blank_pair\<lparr>order := 1\<rparr>
   \<and> entries (smt_state_normalize insertion_qsort full_state) = []"
proof -
  have "one_value \<noteq> zero_key"
    using one_value_nonzero by (auto simp: zero_key_def smt_zero_value_iff length_one_value)
  then have "(zero_key, zero_key) \<notin> set (entries (smt_state_normalize insertion_qsort three_state))"
    using one_key_nonzero by (simp add: three_normalized)
  then show ?thesis
    using three_ordered three_normalized full_state_order normalize_large[OF full_state_neg]
    by (intro conjI)
qed

text \<open>
  C6, amended. In a state of fewer than \<open>2^31\<close> pairs, every pair whose \<open>order\<close> is the
  lowest among the pairs with its key is retained by the duplicate removal and is the only
  retained pair with that key; and every retained pair is such a pair of lowest order.
\<close>

theorem C6_lowest_order_retained:
  assumes ok: "state_ok st" and qs: "qsort_sorts qs st"
    and small: "unat (len st) < 2 ^ 31"
  shows "(\<forall>p \<in> set (take (unat (len st)) (assign_order (pairs st) (len st))).
            (\<forall>r \<in> set (take (unat (len st)) (assign_order (pairs st) (len st))).
               key r = key p \<longrightarrow> order p \<le> order r)
            \<longrightarrow> (key p, val p) \<in> set (entries (smt_state_normalize qs st))
              \<and> (\<forall>(k, v) \<in> set (entries (smt_state_normalize qs st)). k = key p \<longrightarrow> v = val p))
       \<and> (\<forall>(k, v) \<in> set (entries (smt_state_normalize qs st)).
           \<exists>p \<in> set (take (unat (len st)) (assign_order (pairs st) (len st))).
             key p = k \<and> val p = v
             \<and> (\<forall>r \<in> set (take (unat (len st)) (assign_order (pairs st) (len st))).
                  key r = k \<longrightarrow> order p \<le> order r))"
proof -
  let ?n = "unat (len st)"
  let ?xs = "take ?n (assign_order (pairs st) (len st))"
  note xs = ordered_prefix[OF ok]
  have A: "(key p, val p) \<in> set (entries (smt_state_normalize qs st))
         \<and> (\<forall>(k, v) \<in> set (entries (smt_state_normalize qs st)). k = key p \<longrightarrow> v = val p)"
    if "p \<in> set ?xs" "\<forall>r \<in> set ?xs. key r = key p \<longrightarrow> order p \<le> order r" for p
    using lowest_is_retained[OF ok qs small that] by blast
  have B: "\<exists>p \<in> set ?xs. key p = k \<and> val p = v \<and> (\<forall>r \<in> set ?xs. key r = k \<longrightarrow> order p \<le> order r)"
    if "(k, v) \<in> set (entries (smt_state_normalize qs st))" for k v
  proof -
    from retained_is_last[OF ok qs that] obtain i where
      i: "i < ?n" "key (pairs st ! i) = k" "val (pairs st ! i) = v"
        "\<forall>j < ?n. key (pairs st ! j) = k \<longrightarrow> j \<le> i"
      by blast
    have p1: "?xs ! i \<in> set ?xs"
      using i(1) xs(1) by (metis nth_mem)
    have p: "key (?xs ! i) = k" "val (?xs ! i) = v" "order (?xs ! i) = len st - of_nat i"
      using i xs(2) by simp_all
    have "order (?xs ! i) \<le> order r" if r: "r \<in> set ?xs" "key r = k" for r
    proof -
      from r(1) obtain j where j: "j < ?n" "r = ?xs ! j"
        using xs(1) by (metis in_set_conv_nth)
      then have "key (pairs st ! j) = k" "order r = len st - of_nat j"
        using r(2) xs(2) by simp_all
      moreover from this i(4) j(1) have "j \<le> i" by blast
      ultimately show ?thesis
        using p(3) i(1) j(1)
        by (simp add: word_le_nat_alt unat_len_minus)
    qed
    then show ?thesis using p p1 by blast
  qed
  show ?thesis
    using A B by blast
qed


theorem C6_lowest_order_retained_witness:
  "take 3 (assign_order (pairs three_state) 3)
     = [\<lparr>key = one_key, val = one_value, order = 3\<rparr>,
        \<lparr>key = zero_key, val = zero_key, order = 2\<rparr>,
        \<lparr>key = zero_key, val = one_value, order = 1\<rparr>]
   \<and> (zero_key, one_value) \<in> set (entries (smt_state_normalize insertion_qsort three_state))
   \<and> (zero_key, zero_key) \<notin> set (entries (smt_state_normalize insertion_qsort three_state))"
proof -
  let ?p = "\<lparr>key = zero_key, val = one_value, order = 1\<rparr>"
  let ?E = "entries (smt_state_normalize insertion_qsort three_state)"
  have ne: "one_value \<noteq> zero_key"
    using one_value_nonzero by (auto simp: zero_key_def smt_zero_value_iff length_one_value)
  have small: "unat (len three_state) < 2 ^ 31"
    unfolding len_three_state unat_3 by simp
  have mem: "?p \<in> set (take 3 (assign_order (pairs three_state) 3))"
    unfolding three_ordered by simp
  have low: "\<forall>r \<in> set (take 3 (assign_order (pairs three_state) 3)).
      key r = key ?p \<longrightarrow> order ?p \<le> order r"
    unfolding three_ordered using one_key_nonzero by (simp add: word_le_nat_alt)
  note c = conjunct1[OF C6_lowest_order_retained[OF three_state_ok three_sorts small], unfolded len_three_state unat_3]
  note r = mp[OF bspec[OF c mem] low]
  have k: "key ?p = zero_key" and v: "val ?p = one_value"
    by simp_all
  have a: "(zero_key, one_value) \<in> set ?E"
    using conjunct1[OF r] unfolding k v .
  have imp: "(zero_key, zero_key) \<in> set ?E \<longrightarrow> zero_key = one_value"
    using bspec[OF conjunct2[OF r], of "(zero_key, zero_key)"] unfolding k v
    by (simp only: prod.case) blast
  have b: "(zero_key, zero_key) \<notin> set ?E"
  proof
    assume "(zero_key, zero_key) \<in> set ?E"
    with imp have "zero_key = one_value" by (rule mp)
    then show False using ne by simp
  qed
  show ?thesis
    using three_ordered a b by (intro conjI)
qed

text \<open>
  C7, as stated, fails for more than \<open>2^31\<close> pairs: \<open>smt_state_fetch\<close> starts its scan at
  \<open>int32_t i = state->len - 1\<close>, which is negative once \<open>len\<close> exceeds \<open>2^31\<close>. After
  2147483649 inserts of the same key into a buffer of capacity 2147483650, where \<open>len\<close> stays
  below the capacity, the fetch of that key returns \<open>ERROR_NOT_FOUND\<close>.
\<close>

theorem C7_counterexample:
  "insert_then_fetch
     (smt_state_init (replicate 2147483650 blank_pair) 2147483650)
     (replicate 2147483649 (zero_key, one_value)) zero_key = Inl ERROR_NOT_FOUND
   \<and> latest_insert (replicate 2147483649 (zero_key, one_value)) zero_key = Some one_value"
proof -
  let ?n = "2147483649 :: nat"
  let ?st0 = "smt_state_init (replicate 2147483650 blank_pair) 2147483650"
  let ?kvs = "replicate ?n (zero_key, one_value)"
  have ok0: "state_ok ?st0"
    by (rule smt_state_init_ok) simp
  have room: "unat (len ?st0) + length ?kvs \<le> unat (capacity ?st0)"
    by (simp add: smt_state_init_def)
  have b32: "bytes32 ?kvs"
    by (simp add: bytes32_def list_all_iff length_zero_key length_one_value)
  from insert_all_fits[OF ok0 b32 room] obtain st where
    ins: "insert_all ?st0 ?kvs = Inr st" and l: "unat (len st) = ?n"
    by (auto simp: smt_state_init_def)
  have "sint (len st - 1) < 0"
    by (rule sint_len_minus_1_neg) (simp add: l)
  then have "smt_state_fetch st zero_key = Inl ERROR_NOT_FOUND"
    by (simp add: smt_state_fetch_def fetch_loop_neg)
  then have a: "insert_then_fetch ?st0 ?kvs zero_key = Inl ERROR_NOT_FOUND"
    by (simp add: insert_then_fetch_def ins)
  have b: "latest_insert ?kvs zero_key = Some one_value"
    by (simp add: latest_insert_def map_of_replicate)
  show ?thesis using a b by (rule conjI)
qed


text \<open>
  C7, amended. For a sequence of at most \<open>2^31\<close> inserts that fits the capacity of an
  initialised state, the fetch of a key returns 0 with the value of the most recent insert
  of that key, and \<open>ERROR_NOT_FOUND\<close> when no insert used the key.
\<close>

theorem C7_insert_fetch:
  assumes buf: "length buf = unat cap"
    and kvs: "bytes32 kvs" and k: "length k = 32"
    and fits: "length kvs \<le> unat cap"
    and small: "length kvs \<le> 2 ^ 31"
  shows "insert_then_fetch (smt_state_init buf cap) kvs k =
           (case latest_insert kvs k of None \<Rightarrow> Inl ERROR_NOT_FOUND | Some v \<Rightarrow> Inr v)"
proof -
  have ok0: "state_ok (smt_state_init buf cap)"
    by (rule smt_state_init_ok[OF buf])
  have "unat (len (smt_state_init buf cap)) + length kvs \<le> unat (capacity (smt_state_init buf cap))"
    using fits by (simp add: smt_state_init_def)
  from insert_all_fits[OF ok0 kvs this] obtain st where
    ins: "insert_all (smt_state_init buf cap) kvs = Inr st" and l: "unat (len st) = length kvs"
    by (auto simp: smt_state_init_def)
  have "smt_state_fetch st k
       = (case latest_insert kvs k of None \<Rightarrow> Inl ERROR_NOT_FOUND | Some v \<Rightarrow> Inr v)"
    by (rule fetch_after_inserts[OF buf kvs k ins]) (use l small in simp)
  then show ?thesis
    by (simp add: insert_then_fetch_def ins)
qed


theorem C7_insert_fetch_witness:
  "insert_then_fetch (smt_state_init (replicate 3 blank_pair) 3)
     [(zero_key, zero_key), (one_value, zero_key), (zero_key, one_value)] zero_key
     = Inr one_value
   \<and> insert_then_fetch (smt_state_init (replicate 3 blank_pair) 3)
     [(zero_key, zero_key), (zero_key, one_value)] one_value = Inl ERROR_NOT_FOUND"
proof -
  have ne: "one_value \<noteq> zero_key"
    using one_value_nonzero by (auto simp: zero_key_def smt_zero_value_iff length_one_value)
  show ?thesis
    using C7_insert_fetch[of "replicate 3 blank_pair" 3
        "[(zero_key, zero_key), (one_value, zero_key), (zero_key, one_value)]" zero_key]
      C7_insert_fetch[of "replicate 3 blank_pair" 3
        "[(zero_key, zero_key), (zero_key, one_value)]" one_value] ne
    by (simp add: bytes32_def length_zero_key length_one_value latest_insert_def)
qed

text \<open>
  C8, as stated, fails: \<open>0x50\<close> on an empty stack returns \<open>ERROR_INVALID_STACK\<close> whatever
  follows it, since the stack depth is checked before the operand length; and in a proof of
  4294967290 bytes whose last \<open>0x50\<close> is followed by 10 bytes the sum \<open>proof_index + 33\<close>
  wraps around, the length check passes and the sibling is read past the end of the proof.
\<close>

theorem C8_counterexample:
  "smt_calculate_root sample_hash single_leaf_state [0x50] = Some (Inl ERROR_INVALID_STACK)
   \<and> smt_calculate_root sample_hash single_leaf_state [0x50] \<noteq> Some (Inl ERROR_INVALID_PROOF)
   \<and> length wrapping_proof = 4294967290
   \<and> smt_calculate_root sample_hash single_leaf_state wrapping_proof = None"
proof -
  let ?s = single_leaf_state
  let ?d = "sample_hash (zero_key @ one_value)"
  let ?m1 = "\<lparr>proof_index = 1, leave_index = 1, stack = [(zero_key, ?d)]\<rparr>"
  let ?m2 = "\<lparr>proof_index = 4294967279, leave_index = 1, stack = [(zero_key, ?d)]\<rparr>"
  have a: "smt_calculate_root sample_hash ?s [0x50] = Some (Inl ERROR_INVALID_STACK)"
    by (rule single_leaf_P_root)
  have l: "length wrapping_proof = 4294967290"
    by (simp add: wrapping_proof_def length_zero_siblings)
  then have len: "length wrapping_proof < 2 ^ 32" by simp
  have l0: "smt_loop sample_hash ?s wrapping_proof interp_init
      = smt_loop sample_hash ?s wrapping_proof ?m1"
    by (rule single_leaf_first_step(1)) (simp_all add: l, simp add: wrapping_proof_def)
  have p: "wrapping_proof = [0x4C] @ zero_siblings 0 126322567 @ ([0x50] @ replicate 10 0)"
    by (simp add: wrapping_proof_def)
  have "smt_loop sample_hash ?s wrapping_proof ?m1
      = smt_loop sample_hash ?s wrapping_proof
          (?m1\<lparr>proof_index := proof_index ?m1 + of_nat (34 * (126322567 - 0))\<rparr>)"
    by (rule zero_run[OF len length_sample_hash p]) (simp_all add: zero_key_def)
  then have l1: "smt_loop sample_hash ?s wrapping_proof ?m1
      = smt_loop sample_hash ?s wrapping_proof ?m2"
    by simp
  have opc: "wrapping_proof ! 4294967279 = 0x50"
    by (simp add: wrapping_proof_def nth_append length_zero_siblings)
  have s2: "smt_step sample_hash ?s wrapping_proof ?m2 = None"
    by (simp add: smt_step_def opc Let_def case_0x50_def l word_less_nat_alt)
  have l2: "smt_loop sample_hash ?s wrapping_proof ?m2 = None"
    by (simp add: loop_step l s2)
  have b: "smt_calculate_root sample_hash ?s wrapping_proof = None"
    by (simp add: smt_calculate_root_def l0 l1 l2)
  show ?thesis
    using a l b by simp
qed

text \<open>
  C8, amended. In a proof of fewer than \<open>2^32 - 33\<close> bytes, when the loop arrives at an
  opcode \<open>0x50\<close> with a non-empty stack and fewer than 33 bytes after the opcode, or at an
  opcode \<open>0x48\<close> with at least two frames and no byte after the opcode,
  \<open>smt_calculate_root\<close> returns \<open>ERROR_INVALID_PROOF\<close>; when it arrives at \<open>0x50\<close> with an
  empty stack or at \<open>0x48\<close> with fewer than two frames, it returns \<open>ERROR_INVALID_STACK\<close>.
\<close>

theorem C8_truncated_operand:
  assumes run: "reaches H s proof interp_init m"
    and len: "length proof + 33 < 2 ^ 32"
    and at: "unat (proof_index m) < length proof"
  shows "(proof ! unat (proof_index m) = 0x50 \<and> stack m \<noteq> []
            \<and> length proof - (unat (proof_index m) + 1) < 33
          \<longrightarrow> smt_calculate_root H s proof = Some (Inl ERROR_INVALID_PROOF))
       \<and> (proof ! unat (proof_index m) = 0x48 \<and> 2 \<le> length (stack m)
            \<and> length proof - (unat (proof_index m) + 1) = 0
          \<longrightarrow> smt_calculate_root H s proof = Some (Inl ERROR_INVALID_PROOF))
       \<and> (proof ! unat (proof_index m) = 0x50 \<and> stack m = []
          \<longrightarrow> smt_calculate_root H s proof = Some (Inl ERROR_INVALID_STACK))
       \<and> (proof ! unat (proof_index m) = 0x48 \<and> length (stack m) < 2
          \<longrightarrow> smt_calculate_root H s proof = Some (Inl ERROR_INVALID_STACK))"
proof -
  have len': "length proof < 2 ^ 32" using len by simp
  have lt: "proof_index m < of_nat (length proof)"
    by (rule index_lt[OF len' at])
  show ?thesis
    using reaches_error[OF run lt] truncated_0x50[OF _ _ len at, of H s]
      truncated_0x48[OF _ _ len' at, of H s] underflow_0x50[of "proof" m H s]
      underflow_0x48[of "proof" m H s]
    by blast
qed



theorem C8_truncated_operand_witness:
  "smt_calculate_root sample_hash single_leaf_state S5_proof = Some (Inl ERROR_INVALID_PROOF)
   \<and> smt_calculate_root sample_hash single_leaf_state [0x48] = Some (Inl ERROR_INVALID_STACK)"
proof -
  let ?m1 = "\<lparr>proof_index = 1, leave_index = 1,
            stack = [(zero_key, sample_hash (zero_key @ one_value))]\<rparr>"
  have r: "reaches sample_hash single_leaf_state S5_proof interp_init ?m1"
    by (rule single_leaf_first_step(2)) (simp_all add: S5_proof_def)
  have r0: "reaches sample_hash single_leaf_state [0x48] interp_init interp_init"
    by (rule reaches_refl)
  show ?thesis
    using C8_truncated_operand[OF r] C8_truncated_operand[OF r0]
    by (simp add: S5_proof_def interp_init_def)
qed

text \<open>
  C9. With a 32-byte expected root \<open>hash\<close>: \<open>smt_verify\<close> returns 0 exactly when
  \<open>smt_calculate_root\<close> returns 0 with a root equal to \<open>hash\<close>; an error of
  \<open>smt_calculate_root\<close> is returned unchanged; a root that differs from \<open>hash\<close> gives
  \<open>ERROR_INVALID_PROOF\<close>.
\<close>

theorem C9_verify:
  assumes "\<forall>x. length (H x) = 32" and "length hash = 32"
  shows "(smt_verify H hash st proof = Some (Inr ())
            \<longleftrightarrow> smt_calculate_root H st proof = Some (Inr hash))
       \<and> (\<forall>e. smt_calculate_root H st proof = Some (Inl e)
            \<longrightarrow> smt_verify H hash st proof = Some (Inl e))
       \<and> (\<forall>root. smt_calculate_root H st proof = Some (Inr root) \<and> root \<noteq> hash
            \<longrightarrow> smt_verify H hash st proof = Some (Inl ERROR_INVALID_PROOF))"
proof -
  have "length root = 32" if "smt_calculate_root H st proof = Some (Inr root)" for root
    using root_length[OF assms(1) that] .
  then show ?thesis
    using assms(2)
    by (auto simp: smt_verify_def memcmp_eq_def split: option.splits sum.splits)
qed

theorem C9_verify_witness:
  "smt_verify sample_hash (sample_hash (zero_key @ one_value)) single_leaf_state [0x4C]
     = Some (Inr ())
   \<and> smt_verify sample_hash (replicate 32 0) single_leaf_state [0x4C]
     = Some (Inl ERROR_INVALID_PROOF)
   \<and> smt_verify sample_hash (replicate 32 0) single_leaf_state [0x50]
     = Some (Inl ERROR_INVALID_STACK)"
proof -
  have h: "\<forall>x. length (sample_hash x) = 32"
    by (simp add: length_sample_hash)
  have ne: "sample_hash (zero_key @ one_value) \<noteq> replicate 32 0"
    by (simp add: sample_hash_def zero_key_def one_value_def)
  show ?thesis
    using C9_verify [OF h length_sample_hash,
        of "zero_key @ one_value" single_leaf_state "[0x4C]"]
      C9_verify [OF h, of "replicate 32 0" single_leaf_state "[0x4C]"]
      C9_verify [OF h, of "replicate 32 0" single_leaf_state "[0x50]"]
      single_leaf_L_root single_leaf_P_root ne
    by simp
qed

text \<open>
  C10. When the \<open>0x48\<close> opcode passes its sibling validation, bit \<open>height\<close> of the lower
  frame's key is 0 and that of the upper frame's key is 1; the two frames are replaced by one
  whose digest is the merge of the lower digest with the upper one, and whose key is the
  parent path of the lower key, with the bits \<open>0, \<dots>, height\<close> all zero.
\<close>

theorem C10_H_success:
  assumes op: "proof ! unat (proof_index m) = 0x48"
    and frames: "stack m = (key_b, value_b) # (key_a, value_a) # rest"
    and la: "length key_a = 32" and lb: "length key_b = 32"
    and step: "smt_step H s proof m = Some (Inr m')"
  shows "(let height = proof ! unat (proof_index m + 1) in
           \<not> smt_get_bit key_a (unat height) \<and> smt_get_bit key_b (unat height)
         \<and> stack m' = (smt_parent_path key_a height, smt_merge H value_a value_b) # rest
         \<and> (\<forall>i \<le> unat height. \<not> smt_get_bit (smt_parent_path key_a height) i))"
proof -
  let ?m1 = "m\<lparr>proof_index := proof_index m + 1\<rparr>"
  define height where "height = proof ! unat (proof_index m + 1)"
  have c: "case_0x48 H proof ?m1 = Some (Inr m')"
    using step op by (simp add: smt_step_def Let_def)
  then have present: "proof_index ?m1 < of_nat (length proof)"
    by (auto simp: case_0x48_def Let_def not_le split: if_splits)
  have f1: "stack ?m1 = (key_b, value_b) # (key_a, value_a) # rest"
    using frames by simp
  note unfolded = case_0x48_frames[OF f1 la lb present, of H, unfolded c Let_def]
  have ok: "sibling_ok key_a key_b height"
    using unfolded by (auto simp: height_def split: if_splits)
  then have a0: "\<not> smt_get_bit key_a (unat height)" and b1: "smt_get_bit key_b (unat height)"
    using sibling_ok_bits[OF la lb] by blast+
  have stk: "stack m' = (smt_copy_bits key_a (unat height), smt_merge H value_a value_b) # rest"
    using unfolded ok a0 by (auto simp: height_def split: if_splits)
  have par: "smt_copy_bits key_a (unat height) = smt_parent_path key_a height"
    by (rule copy_bits_parent[OF la a0])
  have "\<not> smt_get_bit (smt_copy_bits key_a (unat height)) i" if "i \<le> unat height" for i
  proof -
    have "i < 256" using that unat_u8_lt[of height] by simp
    then show ?thesis
      using that a0 la unat_u8_lt[of height]
      by (cases "i = unat height") (auto simp: get_bit_copy_bits)
  qed
  then show ?thesis
    using a0 b1 stk par by (simp add: height_def Let_def)
qed

theorem C10_H_success_witness:
  "smt_step sample_hash single_leaf_state S3_proof
     \<lparr>proof_index = 2, leave_index = 2,
      stack = [(smt_set_bit zero_key 0, replicate 32 2), (zero_key, replicate 32 1)]\<rparr>
     = Some (Inr \<lparr>proof_index = 4, leave_index = 2,
          stack = [(zero_key, smt_merge sample_hash (replicate 32 1) (replicate 32 2))]\<rparr>)
   \<and> \<not> smt_get_bit zero_key 0 \<and> smt_get_bit (smt_set_bit zero_key 0) 0
   \<and> smt_parent_path zero_key 0 = zero_key
   \<and> \<not> smt_get_bit (smt_parent_path zero_key 0) 0"
proof -
  let ?m = "\<lparr>proof_index = 2, leave_index = 2,
      stack = [(smt_set_bit zero_key 0, replicate 32 2), (zero_key, replicate 32 (1::u8))]\<rparr>"
  let ?m' = "\<lparr>proof_index = 4, leave_index = 2,
          stack = [(zero_key, smt_merge sample_hash (replicate 32 1) (replicate 32 2))]\<rparr>"
  have ok: "sibling_ok zero_key (smt_set_bit zero_key 0) 0"
    by (simp add: sibling_ok_bits set_bit_zero_key_bits length_zero_key get_bit_set_bit)
  have cb: "smt_copy_bits zero_key 0 = zero_key"
    by (simp add: smt_copy_bits_def)
  have step: "smt_step sample_hash single_leaf_state S3_proof ?m = Some (Inr ?m')"
    using case_0x48_frames[of "?m\<lparr>proof_index := 3\<rparr>" "smt_set_bit zero_key 0" "replicate 32 2"
        zero_key "replicate 32 1" "[]" S3_proof sample_hash] ok
    by (simp add: smt_step_def S3_proof_nth Let_def S3_proof_length length_zero_key
          set_bit_zero_key_bits cb)
  have op: "S3_proof ! unat (proof_index ?m) = 0x48"
    by (simp add: S3_proof_nth)
  show ?thesis
    using C10_H_success[OF op _ length_zero_key set_bit_zero_key_bits(3) step] step
    by (simp add: Let_def S3_proof_nth)
qed


end
